theory Spec2Isabelle
  imports Main
begin

section \<open>Integers\<close>

text \<open>
  Go's \<open>int\<close> is a 64-bit two's complement integer on the platforms the viewer is built
  for. The model uses \<open>int\<close>; \<open>wrap64\<close> is written at every addition and subtraction one
  of whose operands is the step count \<open>n\<close> supplied by the caller, which is the only
  unbounded quantity. The other operands are slice lengths, cursor positions below a slice
  length, and viewport heights of at most 30, whose sums and differences stay far inside
  the 64-bit range.
\<close>

definition wrap64 :: "int \<Rightarrow> int" where
  "wrap64 x = (x + 2 ^ 63) mod 2 ^ 64 - 2 ^ 63"

text \<open>\<open>func clamp(v, low, high int) int { return min(max(v, low), high) }\<close>\<close>

definition clamp :: "int \<Rightarrow> int \<Rightarrow> int \<Rightarrow> int" where
  "clamp v low high = min (max v low) high"

text \<open>
  The quotient \<open>a / b\<close> of Go rounds towards zero, where \<open>div\<close> on \<open>int\<close> rounds
  down. The table only divides by the constant 2.
\<close>

definition quo :: "int \<Rightarrow> int \<Rightarrow> int" where
  "quo a b = (if (a < 0) = (b < 0) then \<bar>a\<bar> div \<bar>b\<bar> else - (\<bar>a\<bar> div \<bar>b\<bar>))"

section \<open>Errors\<close>

text \<open>The only failure of the table package is the run-time panic of a slice index out of range.\<close>

datatype error = IndexOutOfRange

fun collect :: "('a \<Rightarrow> error + 'b) \<Rightarrow> 'a list \<Rightarrow> error + 'b list" where
  "collect f [] = Inr []"
| "collect f (x # xs) =
     (case f x of
        Inl e \<Rightarrow> Inl e
      | Inr y \<Rightarrow> (case collect f xs of Inl e \<Rightarrow> Inl e | Inr ys \<Rightarrow> Inr (y # ys)))"

section \<open>The viewport collaborator\<close>

text \<open>
  The styling library returns opaque text blocks. A rendered table row is kept as the data
  it was rendered from: the row index of its label, the cells drawn with their widths, and
  whether it carries the highlight style. Every cell is rendered inline (on one line), so a
  rendered row is one line of the content buffer. \<open>Blank\<close> is the empty line: joining no
  rows gives the empty string, which splits into one empty line.
\<close>

datatype line = Blank | RowLine int "(string \<times> int) list" bool

definition JoinVertical :: "line list \<Rightarrow> line list" where
  "JoinVertical rs = (if rs = [] then [Blank] else rs)"

text \<open>
  Modelled from the spec: the Viewport collaborator, which "holds a content string and a
  vertical scroll offset within a fixed visible height; supports setting content and
  adjusting offset". It is the \<open>viewport.Model\<close> of the terminal widget library that the
  table imports, and its source is not part of this repository. The table reads and writes
  its fields \<open>Height\<close> and \<open>YOffset\<close> directly and calls three of its functions, which
  are modelled as the library has them:
  \<^item> \<open>viewport.New(width, height)\<close> returns a viewport of that height with offset 0 and
    no lines;
  \<^item> \<open>SetYOffset(n)\<close> stores \<open>n\<close> limited to between 0 and the largest offset at which
    the content still fills the height, \<open>max(0, len(lines) - Height)\<close>;
  \<^item> \<open>SetContent(s)\<close> stores the lines of \<open>s\<close> and, when the offset lies beyond the
    last line, goes to the bottom (\<open>SetYOffset\<close> of the largest offset).
\<close>

record viewport_Model =
  Height :: int
  YOffset :: int
  lines :: "line list"

definition viewport_New :: "int \<Rightarrow> int \<Rightarrow> viewport_Model" where
  "viewport_New width height = \<lparr>Height = height, YOffset = 0, lines = []\<rparr>"

definition maxYOffset :: "viewport_Model \<Rightarrow> int" where
  "maxYOffset vp = max 0 (int (length (lines vp)) - Height vp)"

definition SetYOffset :: "int \<Rightarrow> viewport_Model \<Rightarrow> viewport_Model" where
  "SetYOffset n vp = vp\<lparr>YOffset := clamp n 0 (maxYOffset vp)\<rparr>"

definition GotoBottom :: "viewport_Model \<Rightarrow> viewport_Model" where
  "GotoBottom vp = SetYOffset (maxYOffset vp) vp"

definition SetContent :: "line list \<Rightarrow> viewport_Model \<Rightarrow> viewport_Model" where
  "SetContent ls vp =
     (let vp1 = vp\<lparr>lines := ls\<rparr>
      in if YOffset vp1 > int (length ls) - 1 then GotoBottom vp1 else vp1)"

section \<open>The table model\<close>

text \<open>The struct \<open>Model\<close>; the key map plays no part in the cursor arithmetic and is left out.\<close>

record Model =
  cols :: "string list"
  rows :: "string list list"
  paddings :: "int list"
  cursor_row :: int
  cursor_col :: int
  viewport :: viewport_Model
  start :: int
  end' :: int

subsection \<open>\<open>calc_paddings\<close>\<close>

text \<open>
  The inner loop \<open>for j, value := range record\<close>: \<open>paddings[j]\<close> panics when the record
  is longer than the header.
\<close>

fun pad_record :: "string list \<Rightarrow> nat \<Rightarrow> int list \<Rightarrow> error + int list" where
  "pad_record [] j ps = Inr ps"
| "pad_record (v # vs) j ps =
     (if j < length ps then pad_record vs (Suc j) (ps[j := max (ps ! j) (int (length v))])
      else Inl IndexOutOfRange)"

fun pad_records :: "string list list \<Rightarrow> int list \<Rightarrow> error + int list" where
  "pad_records [] ps = Inr ps"
| "pad_records (r # rs) ps =
     (case pad_record r 0 ps of Inl e \<Rightarrow> Inl e | Inr ps1 \<Rightarrow> pad_records rs ps1)"

definition calc_paddings :: "Model \<Rightarrow> error + int list" where
  "calc_paddings m =
     (case pad_records (cols m # rows m) (replicate (length (cols m)) 0) of
        Inl e \<Rightarrow> Inl e
      | Inr ps \<Rightarrow> Inr (map (\<lambda>p. p + 1) ps))"

subsection \<open>\<open>renderRow\<close> and \<open>UpdateViewport\<close>\<close>

text \<open>One pass of the cell loop of \<open>renderRow\<close>: \<open>m.rows[r][i]\<close>, then \<open>m.paddings[i]\<close>.\<close>

definition cell_at :: "string list \<Rightarrow> int list \<Rightarrow> int \<Rightarrow> error + (string \<times> int)" where
  "cell_at rw ps i =
     (if i < 0 \<or> int (length rw) \<le> i then Inl IndexOutOfRange
      else if int (length ps) \<le> i then Inl IndexOutOfRange
      else Inr (rw ! nat i, ps ! nat i))"

definition renderRow :: "Model \<Rightarrow> int \<Rightarrow> error + line" where
  "renderRow m r =
     (if r < 0 \<or> int (length (rows m)) \<le> r then Inl IndexOutOfRange
      else
        let rw = rows m ! nat r
        in case collect (cell_at rw (paddings m)) [cursor_col m .. int (length rw) - 1] of
             Inl e \<Rightarrow> Inl e
           | Inr cs \<Rightarrow> Inr (RowLine r cs (r = cursor_row m)))"

definition UpdateViewport :: "Model \<Rightarrow> error + Model" where
  "UpdateViewport m =
     (let st = (if cursor_row m \<ge> 0
                then clamp (cursor_row m - Height (viewport m)) 0 (cursor_row m)
                else 0);
          en = clamp (cursor_row m + Height (viewport m)) (cursor_row m)
                 (int (length (rows m)));
          m1 = m\<lparr>start := st, end' := en\<rparr>
      in case collect (renderRow m1) [st .. en - 1] of
           Inl e \<Rightarrow> Inl e
         | Inr renderedRows \<Rightarrow>
             Inr (m1\<lparr>viewport := SetContent (JoinVertical renderedRows) (viewport m1)\<rparr>))"

subsection \<open>Construction\<close>

type_synonym Option = "Model \<Rightarrow> Model"

definition WithColumns :: "string list \<Rightarrow> Option" where
  "WithColumns cs m = m\<lparr>cols := cs\<rparr>"

definition WithRows :: "string list list \<Rightarrow> Option" where
  "WithRows rs m = m\<lparr>rows := rs\<rparr>"

definition New :: "Option list \<Rightarrow> error + Model" where
  "New opts =
     (let m0 = \<lparr>cols = [], rows = [], paddings = [], cursor_row = 0, cursor_col = 0,
                viewport = \<lparr>Height = 0, YOffset = 0, lines = []\<rparr>, start = 0, end' = 0\<rparr>;
          m1 = fold (\<lambda>opt m. opt m) opts m0;
          m2 = m1\<lparr>viewport := viewport_New 0 (min 30 (int (length (rows m1))))\<rparr>
      in case calc_paddings m2 of
           Inl e \<Rightarrow> Inl e
         | Inr ps \<Rightarrow> UpdateViewport (m2\<lparr>paddings := ps\<rparr>))"

subsection \<open>Navigation\<close>

definition MoveUp :: "int \<Rightarrow> Model \<Rightarrow> error + Model" where
  "MoveUp n m =
     (let m1 = m\<lparr>cursor_row := clamp (wrap64 (cursor_row m - n)) 0 (int (length (rows m)) - 1)\<rparr>;
          vp = viewport m1;
          m2 = (if start m1 = 0 then
                  m1\<lparr>viewport := SetYOffset (clamp (YOffset vp) 0 (cursor_row m1)) vp\<rparr>
                else if start m1 < Height vp then
                  m1\<lparr>viewport := vp\<lparr>YOffset :=
                       clamp (clamp (wrap64 (YOffset vp + n)) 0 (cursor_row m1)) 0 (Height vp)\<rparr>\<rparr>
                else if YOffset vp \<ge> 1 then
                  m1\<lparr>viewport := vp\<lparr>YOffset := clamp (wrap64 (YOffset vp + n)) 1 (Height vp)\<rparr>\<rparr>
                else m1)
      in UpdateViewport m2)"

definition MoveDown :: "int \<Rightarrow> Model \<Rightarrow> error + Model" where
  "MoveDown n m =
     (case UpdateViewport
             (m\<lparr>cursor_row := clamp (wrap64 (cursor_row m + n)) 0 (int (length (rows m)) - 1)\<rparr>) of
        Inl e \<Rightarrow> Inl e
      | Inr m1 \<Rightarrow>
          Inr (let vp = viewport m1
               in if end' m1 = int (length (rows m1)) \<and> YOffset vp > 0 then
                    m1\<lparr>viewport := SetYOffset (clamp (wrap64 (YOffset vp - n)) 1 (Height vp)) vp\<rparr>
                  else if cursor_row m1 > quo (end' m1 - start m1) 2 \<and> YOffset vp > 0 then
                    m1\<lparr>viewport := SetYOffset (clamp (wrap64 (YOffset vp - n)) 1 (cursor_row m1)) vp\<rparr>
                  else if YOffset vp > 1 then m1
                  else if cursor_row m1 > YOffset vp + Height vp - 1 then
                    m1\<lparr>viewport := SetYOffset (clamp (YOffset vp + 1) 0 1) vp\<rparr>
                  else m1))"

definition MoveRight :: "int \<Rightarrow> Model \<Rightarrow> error + Model" where
  "MoveRight n m =
     UpdateViewport
       (m\<lparr>cursor_col := clamp (wrap64 (cursor_col m + n)) 0 (int (length (cols m)) - 1)\<rparr>)"

definition MoveLeft :: "int \<Rightarrow> Model \<Rightarrow> error + Model" where
  "MoveLeft n m =
     UpdateViewport
       (m\<lparr>cursor_col := clamp (wrap64 (cursor_col m - n)) 0 (int (length (cols m)) - 1)\<rparr>)"

text \<open>The key dispatch of \<open>Update\<close>; a key bound to nothing leaves the model as it is.\<close>

datatype key = LineUp | LineDown | PageUp | PageDown | ColLeft | ColRight | OtherKey

fun Update :: "key \<Rightarrow> Model \<Rightarrow> error + Model" where
  "Update LineUp m = MoveUp 1 m"
| "Update LineDown m = MoveDown 1 m"
| "Update PageUp m = MoveUp (Height (viewport m)) m"
| "Update PageDown m = MoveDown (Height (viewport m)) m"
| "Update ColLeft m = MoveLeft 1 m"
| "Update ColRight m = MoveRight 1 m"
| "Update OtherKey m = Inr m"

subsection \<open>The program around the table\<close>

text \<open>
  \<open>parseArgs\<close> fills \<open>command_args\<close>; \<open>table_height\<close> holds the flag \<open>-height\<close>
  ("max height for the table in rows", default 20). \<open>main\<close> builds the table from the
  columns and rows that \<open>readFile\<close> returns.
\<close>

record command_args =
  filename :: string
  file_type :: string
  delimiter :: nat
  table_height :: int

definition main_table :: "command_args \<Rightarrow> string list \<Rightarrow> string list list \<Rightarrow> error + Model" where
  "main_table args columns rs = New [WithColumns columns, WithRows rs]"

subsection \<open>Reachable states\<close>

text \<open>
  The states of a table: what construction returns, and what a navigation operation that
  returns makes of such a state.
\<close>

inductive reachable :: "Model \<Rightarrow> bool" where
  reach_New: "New [WithColumns cs, WithRows rs] = Inr m \<Longrightarrow> reachable m"
| reach_MoveUp: "reachable m \<Longrightarrow> MoveUp n m = Inr m1 \<Longrightarrow> reachable m1"
| reach_MoveDown: "reachable m \<Longrightarrow> MoveDown n m = Inr m1 \<Longrightarrow> reachable m1"
| reach_MoveLeft: "reachable m \<Longrightarrow> MoveLeft n m = Inr m1 \<Longrightarrow> reachable m1"
| reach_MoveRight: "reachable m \<Longrightarrow> MoveRight n m = Inr m1 \<Longrightarrow> reachable m1"

subsection \<open>The scroll rules of \<open>MoveDown\<close> as a table\<close>

text \<open>
  The specification's decision table for the scroll offset after \<open>MoveDown n\<close>, written
  from the words of the specification, to be compared with \<open>MoveDown\<close> above: the first
  matching rule gives the new offset, \<open>None\<close> leaves the offset as it is. \<open>c\<close> is the
  new cursor row, \<open>st\<close> and \<open>en\<close> are the visible window \<open>[st, en)\<close>. Rule 2, "cursor_row
  has passed the midpoint of the visible window", compares the cursor row with the row in
  the middle of the window, \<open>st + (en - st) / 2\<close>.
\<close>

definition spec_MoveDown_rule :: "int \<Rightarrow> int \<Rightarrow> int \<Rightarrow> int \<Rightarrow> int \<Rightarrow> int \<Rightarrow> int \<Rightarrow> int option" where
  "spec_MoveDown_rule n c st en rowCount visibleHeight offset =
     (if en = rowCount \<and> offset > 0 then Some (clamp (offset - n) 1 visibleHeight)
      else if c > st + quo (en - st) 2 \<and> offset > 0 then Some (clamp (offset - n) 1 c)
      else if offset > 1 then None
      else if c > offset + visibleHeight - 1 then Some (clamp (offset + 1) 0 1)
      else None)"

text \<open>
  The table of the source: the conditions of the \<open>switch\<close> of \<open>MoveDown\<close> and the values
  it hands to \<open>SetYOffset\<close>. Its second case is \<open>m.cursor_row > (m.end-m.start)/2\<close>: the
  cursor row, counted from the first row of the grid, against half the length of the
  window.
\<close>

definition MoveDown_rule :: "int \<Rightarrow> int \<Rightarrow> int \<Rightarrow> int \<Rightarrow> int \<Rightarrow> int \<Rightarrow> int \<Rightarrow> int option" where
  "MoveDown_rule n c st en rowCount visibleHeight offset =
     (if en = rowCount \<and> offset > 0 then Some (clamp (offset - n) 1 visibleHeight)
      else if c > quo (en - st) 2 \<and> offset > 0 then Some (clamp (offset - n) 1 c)
      else if offset > 1 then None
      else if c > offset + visibleHeight - 1 then Some (clamp (offset + 1) 0 1)
      else None)"

subsection \<open>State invariants\<close>

text \<open>
  What holds of every reachable state: the height fixed at construction, the cursor inside
  the grid (or collapsed on an empty axis), the offset between 0 and the height; the window
  as \<open>UpdateViewport\<close> computes it from the cursor, with the content buffer holding its
  rows and the offset on one of its lines; and every row no longer than the width table,
  with a column cursor that \<open>renderRow\<close> can start from.
\<close>

definition cursor_inv :: "Model \<Rightarrow> bool" where
  "cursor_inv m \<longleftrightarrow>
     Height (viewport m) = min 30 (int (length (rows m))) \<and>
     (if rows m = [] then cursor_row m = 0 \<or> cursor_row m = - 1
      else 0 \<le> cursor_row m \<and> cursor_row m < int (length (rows m))) \<and>
     (if cols m = [] then cursor_col m = 0 \<or> cursor_col m = - 1
      else 0 \<le> cursor_col m \<and> cursor_col m < int (length (cols m))) \<and>
     0 \<le> YOffset (viewport m) \<and> YOffset (viewport m) \<le> Height (viewport m)"

definition window_inv :: "Model \<Rightarrow> bool" where
  "window_inv m \<longleftrightarrow>
     start m = (if cursor_row m \<ge> 0
                then clamp (cursor_row m - Height (viewport m)) 0 (cursor_row m) else 0) \<and>
     end' m = clamp (cursor_row m + Height (viewport m)) (cursor_row m)
                (int (length (rows m))) \<and>
     int (length (lines (viewport m))) = max 1 (end' m - start m) \<and>
     YOffset (viewport m) \<le> int (length (lines (viewport m))) - 1"

definition render_inv :: "Model \<Rightarrow> bool" where
  "render_inv m \<longleftrightarrow>
     list_all (\<lambda>rw. length rw \<le> length (paddings m)) (rows m) \<and>
     (0 \<le> cursor_col m \<or> rows m = [])"

section \<open>Basic facts\<close>

lemma wrap64_id: "- (2 ^ 63) \<le> x \<Longrightarrow> x < 2 ^ 63 \<Longrightarrow> wrap64 x = x"
  by (simp add: wrap64_def)

lemma clamp_row_valid:
  "if rs = [] then clamp v 0 (int (length rs) - 1) = - 1
   else 0 \<le> clamp v 0 (int (length rs) - 1) \<and> clamp v 0 (int (length rs) - 1) < int (length rs)"
  by (cases rs) (auto simp: clamp_def)

lemma clamp_col_valid:
  "if cs = [] then clamp v 0 (int (length cs) - 1) = - 1
   else 0 \<le> clamp v 0 (int (length cs) - 1) \<and> clamp v 0 (int (length cs) - 1) < int (length cs)"
  by (cases cs) (auto simp: clamp_def)

lemma collect_length: "collect f xs = Inr ys \<Longrightarrow> length ys = length xs"
  by (induction xs arbitrary: ys) (auto split: sum.splits)

lemma collect_total:
  "(\<And>x. x \<in> set xs \<Longrightarrow> \<exists>y. f x = Inr y) \<Longrightarrow> \<exists>ys. collect f xs = Inr ys"
proof (induction xs)
  case Nil
  then show ?case by simp
next
  case (Cons x xs)
  then obtain y where y: "f x = Inr y" by auto
  from Cons obtain ys where "collect f xs = Inr ys" by auto
  with y show ?case by simp
qed

lemma collect_fails:
  "x \<in> set xs \<Longrightarrow> f x = Inl e \<Longrightarrow> \<exists>e1. collect f xs = Inl e1"
  by (induction xs) (auto split: sum.splits)

lemma sum_case_ex:
  "(case r of Inl e \<Rightarrow> False | Inr m \<Rightarrow> P m) \<Longrightarrow> \<exists>m. r = Inr m \<and> P m"
  by (cases r) auto

subsection \<open>The viewport\<close>

lemma Height_SetContent [simp]: "Height (SetContent ls vp) = Height vp"
  by (simp add: SetContent_def GotoBottom_def SetYOffset_def Let_def)

lemma lines_SetContent [simp]: "lines (SetContent ls vp) = ls"
  by (simp add: SetContent_def GotoBottom_def SetYOffset_def Let_def)

lemma YOffset_SetContent:
  "YOffset (SetContent ls vp) =
     (if YOffset vp > int (length ls) - 1 then max 0 (int (length ls) - Height vp)
      else YOffset vp)"
  by (simp add: SetContent_def GotoBottom_def SetYOffset_def Let_def maxYOffset_def clamp_def)

lemma Height_SetYOffset [simp]: "Height (SetYOffset n vp) = Height vp"
  by (simp add: SetYOffset_def)

lemma lines_SetYOffset [simp]: "lines (SetYOffset n vp) = lines vp"
  by (simp add: SetYOffset_def)

lemma YOffset_SetYOffset:
  "YOffset (SetYOffset n vp) = clamp n 0 (max 0 (int (length (lines vp)) - Height vp))"
  by (simp add: SetYOffset_def maxYOffset_def)

lemma length_JoinVertical: "int (length (JoinVertical rs)) = max 1 (int (length rs))"
  by (cases rs) (simp_all add: JoinVertical_def)

section \<open>The column width table\<close>

lemma pad_record_Inr:
  "j + length vs \<le> length ps \<Longrightarrow>
   \<exists>qs. pad_record vs j ps = Inr qs \<and> length qs = length ps \<and>
        (\<forall>i<length ps. qs ! i = (if j \<le> i \<and> i < j + length vs
                                   then max (ps ! i) (int (length (vs ! (i - j))))
                                   else ps ! i))"
proof (induction vs arbitrary: j ps)
  case Nil
  then show ?case by simp
next
  case (Cons v vs)
  let ?ps = "ps[j := max (ps ! j) (int (length v))]"
  from Cons.prems have j: "j < length ps" by simp
  from Cons.prems have "Suc j + length vs \<le> length ?ps" by simp
  from Cons.IH [OF this] obtain qs where
    qs: "pad_record vs (Suc j) ?ps = Inr qs" "length qs = length ps"
      "\<forall>i<length ps. qs ! i = (if Suc j \<le> i \<and> i < Suc j + length vs
                                   then max (?ps ! i) (int (length (vs ! (i - Suc j))))
                                   else ?ps ! i)"
    by auto
  have "\<forall>i<length ps. qs ! i = (if j \<le> i \<and> i < j + length (v # vs)
                                   then max (ps ! i) (int (length ((v # vs) ! (i - j))))
                                   else ps ! i)"
  proof (intro allI impI)
    fix i assume i: "i < length ps"
    show "qs ! i = (if j \<le> i \<and> i < j + length (v # vs)
                                   then max (ps ! i) (int (length ((v # vs) ! (i - j))))
                                   else ps ! i)"
    proof (cases "i = j")
      case True
      with qs(3) i j show ?thesis by simp
    next
      case False
      with qs(3) i j show ?thesis by (auto simp: nth_Cons')
    qed
  qed
  with qs(1,2) j show ?case by simp
qed

lemma pad_record_row:
  assumes "length r = length ps"
  shows "\<exists>qs. pad_record r 0 ps = Inr qs \<and> length qs = length ps \<and>
          (\<forall>i<length ps. qs ! i = max (ps ! i) (int (length (r ! i))))"
  using pad_record_Inr [of 0 r ps] assms by auto

lemma pad_records_Inr:
  "list_all (\<lambda>r. length r = length ps) rs \<Longrightarrow>
   \<exists>qs. pad_records rs ps = Inr qs \<and> length qs = length ps \<and>
        (\<forall>i<length ps. qs ! i = fold (\<lambda>r a. max a (int (length (r ! i)))) rs (ps ! i))"
proof (induction rs arbitrary: ps)
  case Nil
  then show ?case by simp
next
  case (Cons r rs)
  then have r: "length r = length ps" by simp
  from pad_record_row [OF r] obtain ps1 where
    ps1: "pad_record r 0 ps = Inr ps1" "length ps1 = length ps"
      "\<forall>i<length ps. ps1 ! i = max (ps ! i) (int (length (r ! i)))"
    by auto
  from Cons.prems ps1(2) have "list_all (\<lambda>r. length r = length ps1) rs" by simp
  from Cons.IH [OF this] ps1 show ?case by auto
qed

lemma fold_max_Max:
  "fold (\<lambda>r a. max a (f r)) rs (a::int) = Max (insert a (f ` set rs))"
proof (induction rs arbitrary: a)
  case Nil
  then show ?case by simp
next
  case (Cons r rs)
  have "Max (insert (max a (f r)) (f ` set rs)) = Max (insert a (insert (f r) (f ` set rs)))"
    by (cases "set rs = {}") (simp_all add: max.assoc)
  with Cons show ?case by simp
qed

lemma calc_paddings_Inr:
  assumes "list_all (\<lambda>r. length r = length (cols m)) (rows m)"
  shows "\<exists>ps. calc_paddings m = Inr ps \<and> length ps = length (cols m) \<and>
          (\<forall>i<length (cols m).
             ps ! i = 1 + Max ((\<lambda>r. int (length (r ! i))) ` set (cols m # rows m)))"
proof -
  let ?z = "replicate (length (cols m)) (0::int)"
  from assms have "list_all (\<lambda>r. length r = length ?z) (cols m # rows m)" by simp
  from pad_records_Inr [OF this] obtain qs where
    qs: "pad_records (cols m # rows m) ?z = Inr qs" "length qs = length (cols m)"
      "\<forall>i<length (cols m).
         qs ! i = fold (\<lambda>r a. max a (int (length (r ! i)))) (cols m # rows m) (?z ! i)"
    by auto
  have "qs ! i = Max ((\<lambda>r. int (length (r ! i))) ` set (cols m # rows m))"
    if "i < length (cols m)" for i
  proof -
    have "qs ! i = fold (\<lambda>r a. max a (int (length (r ! i)))) (rows m)
                     (int (length (cols m ! i)))"
      using qs(3) that by simp
    then show ?thesis by (simp add: fold_max_Max)
  qed
  with qs(1,2) show ?thesis by (simp add: calc_paddings_def)
qed

lemma pad_record_Inr_conv:
  "j \<le> length ps \<Longrightarrow> pad_record vs j ps = Inr qs \<Longrightarrow>
   j + length vs \<le> length ps \<and> length qs = length ps"
proof (induction vs arbitrary: j ps)
  case Nil
  then show ?case by simp
next
  case (Cons v vs)
  from Cons.prems have j: "j < length ps"
    and p: "pad_record vs (Suc j) (ps[j := max (ps ! j) (int (length v))]) = Inr qs"
    by (auto split: if_splits)
  from j have "Suc j \<le> length (ps[j := max (ps ! j) (int (length v))])" by simp
  from Cons.IH [OF this p] show ?case by simp
qed

lemma pad_records_Inr_conv:
  "pad_records rs ps = Inr qs \<Longrightarrow>
   list_all (\<lambda>r. length r \<le> length ps) rs \<and> length qs = length ps"
proof (induction rs arbitrary: ps)
  case Nil
  then show ?case by simp
next
  case (Cons r rs)
  from Cons.prems obtain ps1 where a: "pad_record r 0 ps = Inr ps1"
    and b: "pad_records rs ps1 = Inr qs"
    by (auto split: sum.splits)
  from pad_record_Inr_conv [OF _ a] Cons.IH [OF b] show ?case by simp
qed

lemma calc_paddings_Inr_conv:
  assumes "calc_paddings m = Inr ps"
  shows "list_all (\<lambda>r. length r \<le> length ps) (rows m)"
proof -
  from assms obtain qs where
    "pad_records (cols m # rows m) (replicate (length (cols m)) 0) = Inr qs" and "ps = map (\<lambda>p. p + 1) qs"
    by (auto simp: calc_paddings_def split: sum.splits)
  with pad_records_Inr_conv [OF this(1)] show ?thesis by simp
qed

section \<open>Window recomputation and construction\<close>

lemma UpdateViewport_Inr:
  assumes "UpdateViewport m = Inr m1"
  shows "cols m1 = cols m" and "rows m1 = rows m" and "paddings m1 = paddings m"
    and "cursor_row m1 = cursor_row m" and "cursor_col m1 = cursor_col m"
    and "Height (viewport m1) = Height (viewport m)"
    and "start m1 = (if cursor_row m \<ge> 0
                     then clamp (cursor_row m - Height (viewport m)) 0 (cursor_row m) else 0)"
    and "end' m1 = clamp (cursor_row m + Height (viewport m)) (cursor_row m)
                     (int (length (rows m)))"
    and "int (length (lines (viewport m1))) = max 1 (end' m1 - start m1)"
    and "YOffset (viewport m1) =
           (if YOffset (viewport m) > max 1 (end' m1 - start m1) - 1
            then max 0 (max 1 (end' m1 - start m1) - Height (viewport m))
            else YOffset (viewport m))"
  using assms
  by (auto simp: UpdateViewport_def Let_def YOffset_SetContent length_JoinVertical
      dest!: collect_length split: sum.splits)

lemma renderRow_total:
  assumes "0 \<le> r" "r < int (length (rows m))" "0 \<le> cursor_col m"
    and "length (rows m ! nat r) \<le> length (paddings m)"
  shows "\<exists>l. renderRow m r = Inr l"
proof -
  let ?rw = "rows m ! nat r"
  have "\<exists>y. cell_at ?rw (paddings m) i = Inr y"
    if "i \<in> set [cursor_col m .. int (length ?rw) - 1]" for i
    using that assms(3,4) by (auto simp: cell_at_def)
  from collect_total [of "[cursor_col m .. int (length ?rw) - 1]" "cell_at ?rw (paddings m)", OF this]
  obtain cs where "collect (cell_at ?rw (paddings m)) [cursor_col m .. int (length ?rw) - 1] = Inr cs"
    by auto
  with assms(1,2) show ?thesis by (simp add: renderRow_def)
qed

lemma window_rows_in_range:
  assumes "r \<in> set [(if c \<ge> 0 then clamp (c - h) 0 c else 0) .. clamp (c + h) c n - 1]"
  shows "0 \<le> r \<and> r < n"
  using assms by (auto simp: clamp_def split: if_splits)

lemma UpdateViewport_total:
  assumes "0 \<le> cursor_col m \<or> rows m = []"
    and "list_all (\<lambda>rw. length rw \<le> length (paddings m)) (rows m)"
  shows "\<exists>m1. UpdateViewport m = Inr m1"
proof -
  let ?st = "if cursor_row m \<ge> 0
             then clamp (cursor_row m - Height (viewport m)) 0 (cursor_row m) else 0"
  let ?en = "clamp (cursor_row m + Height (viewport m)) (cursor_row m) (int (length (rows m)))"
  let ?m1 = "m\<lparr>start := ?st, end' := ?en\<rparr>"
  have "\<exists>l. renderRow ?m1 r = Inr l" if r: "r \<in> set [?st .. ?en - 1]" for r
  proof -
    from window_rows_in_range [OF r] have b: "0 \<le> r" "r < int (length (rows m))" by auto
    then have ne: "rows m \<noteq> []" by auto
    from b have "rows m ! nat r \<in> set (rows m)" by simp
    with assms(2) have "length (rows m ! nat r) \<le> length (paddings m)"
      by (simp add: list_all_iff)
    with b ne assms(1) show ?thesis by (intro renderRow_total) simp_all
  qed
  from collect_total [of "[?st .. ?en - 1]" "renderRow ?m1", OF this]
  obtain rs where "collect (renderRow ?m1) [?st .. ?en - 1] = Inr rs" by auto
  then show ?thesis by (simp add: UpdateViewport_def Let_def)
qed

lemma renderRow_negative_col:
  assumes "cursor_col m < 0" and "0 \<le> r" and "r < int (length (rows m))"
  shows "\<exists>e. renderRow m r = Inl e"
proof -
  let ?rw = "rows m ! nat r"
  from assms(1) have "cursor_col m \<le> int (length ?rw) - 1" by linarith
  then have a: "cursor_col m \<in> set [cursor_col m .. int (length ?rw) - 1]" by simp
  from assms(1) have b: "cell_at ?rw (paddings m) (cursor_col m) = Inl IndexOutOfRange"
    by (simp add: cell_at_def)
  from collect_fails [where f = "cell_at ?rw (paddings m)", OF a b] obtain e where
    "collect (cell_at ?rw (paddings m)) [cursor_col m .. int (length ?rw) - 1] = Inl e" ..
  with assms(2,3) show ?thesis by (simp add: renderRow_def)
qed

lemma New_Inr:
  assumes "New [WithColumns cs, WithRows rs] = Inr m"
  shows "cols m = cs" and "rows m = rs" and "cursor_row m = 0" and "cursor_col m = 0"
    and "Height (viewport m) = min 30 (int (length rs))"
    and "calc_paddings \<lparr>cols = cs, rows = rs, paddings = [], cursor_row = 0, cursor_col = 0,
            viewport = viewport_New 0 (min 30 (int (length rs))), start = 0, end' = 0\<rparr>
         = Inr (paddings m)"
    and "start m = 0" and "end' m = min 30 (int (length rs))"
    and "YOffset (viewport m) = 0"
    and "int (length (lines (viewport m))) = max 1 (min 30 (int (length rs)))"
proof -
  let ?m2 = "\<lparr>cols = cs, rows = rs, paddings = [], cursor_row = 0, cursor_col = 0,
            viewport = viewport_New 0 (min 30 (int (length rs))), start = 0, end' = 0\<rparr>"
  from assms obtain ps where ps: "calc_paddings ?m2 = Inr ps"
    and u: "UpdateViewport (?m2\<lparr>paddings := ps\<rparr>) = Inr m"
    by (auto simp: New_def WithColumns_def WithRows_def Let_def split: sum.splits)
  note f = UpdateViewport_Inr [OF u]
  show "cols m = cs" "rows m = rs" "cursor_row m = 0" "cursor_col m = 0"
    using f(1,2,4,5) by simp_all
  show "Height (viewport m) = min 30 (int (length rs))"
    using f(6) by (simp add: viewport_New_def)
  show "calc_paddings ?m2 = Inr (paddings m)" using ps f(3) by simp
  show "start m = 0" using f(7) by (simp add: clamp_def)
  show e: "end' m = min 30 (int (length rs))"
    using f(8) by (simp add: clamp_def viewport_New_def)
  show "YOffset (viewport m) = 0" using f(10) by (simp add: viewport_New_def)
  show "int (length (lines (viewport m))) = max 1 (min 30 (int (length rs)))"
    using f(9) e \<open>start m = 0\<close> by simp
qed

lemma New_total:
  assumes "list_all (\<lambda>r. length r = length cs) rs"
  shows "\<exists>m. New [WithColumns cs, WithRows rs] = Inr m"
proof -
  let ?m2 = "\<lparr>cols = cs, rows = rs, paddings = [], cursor_row = 0, cursor_col = 0,
            viewport = viewport_New 0 (min 30 (int (length rs))), start = 0, end' = 0\<rparr>"
  from calc_paddings_Inr [of ?m2] assms obtain ps where
    ps: "calc_paddings ?m2 = Inr ps" "length ps = length cs" by auto
  from assms ps(2) have "list_all (\<lambda>rw. length rw \<le> length (paddings (?m2\<lparr>paddings := ps\<rparr>)))
      (rows (?m2\<lparr>paddings := ps\<rparr>))"
    by (simp add: list_all_iff)
  from UpdateViewport_total [OF _ this] obtain m where
    "UpdateViewport (?m2\<lparr>paddings := ps\<rparr>) = Inr m" by auto
  with ps(1) show ?thesis
    by (simp add: New_def WithColumns_def WithRows_def Let_def)
qed

section \<open>What each navigation operation changes\<close>

lemma MoveDown_Inr:
  assumes "MoveDown n m = Inr m2"
  obtains m1 where
    "UpdateViewport
       (m\<lparr>cursor_row := clamp (wrap64 (cursor_row m + n)) 0 (int (length (rows m)) - 1)\<rparr>)
     = Inr m1"
    and "m2 = (let vp = viewport m1
               in if end' m1 = int (length (rows m1)) \<and> YOffset vp > 0 then
                    m1\<lparr>viewport := SetYOffset (clamp (wrap64 (YOffset vp - n)) 1 (Height vp)) vp\<rparr>
                  else if cursor_row m1 > quo (end' m1 - start m1) 2 \<and> YOffset vp > 0 then
                    m1\<lparr>viewport := SetYOffset (clamp (wrap64 (YOffset vp - n)) 1 (cursor_row m1)) vp\<rparr>
                  else if YOffset vp > 1 then m1
                  else if cursor_row m1 > YOffset vp + Height vp - 1 then
                    m1\<lparr>viewport := SetYOffset (clamp (YOffset vp + 1) 0 1) vp\<rparr>
                  else m1)"
  using assms unfolding MoveDown_def by (auto split: sum.splits)

lemma MoveDown_fields:
  assumes "MoveDown n m = Inr m2"
  shows "cols m2 = cols m" and "rows m2 = rows m" and "paddings m2 = paddings m"
    and "cursor_col m2 = cursor_col m"
    and "cursor_row m2 = clamp (wrap64 (cursor_row m + n)) 0 (int (length (rows m)) - 1)"
    and "Height (viewport m2) = Height (viewport m)"
proof -
  let ?c = "clamp (wrap64 (cursor_row m + n)) 0 (int (length (rows m)) - 1)"
  from assms obtain m1 where
    u1: "UpdateViewport (m\<lparr>cursor_row := ?c\<rparr>) = Inr m1"
    and m2: "m2 = (let vp = viewport m1
               in if end' m1 = int (length (rows m1)) \<and> YOffset vp > 0 then
                    m1\<lparr>viewport := SetYOffset (clamp (wrap64 (YOffset vp - n)) 1 (Height vp)) vp\<rparr>
                  else if cursor_row m1 > quo (end' m1 - start m1) 2 \<and> YOffset vp > 0 then
                    m1\<lparr>viewport := SetYOffset (clamp (wrap64 (YOffset vp - n)) 1 (cursor_row m1)) vp\<rparr>
                  else if YOffset vp > 1 then m1
                  else if cursor_row m1 > YOffset vp + Height vp - 1 then
                    m1\<lparr>viewport := SetYOffset (clamp (YOffset vp + 1) 0 1) vp\<rparr>
                  else m1)"
    by (rule MoveDown_Inr)
  note f = UpdateViewport_Inr [OF u1]
  from m2 consider v where "m2 = m1\<lparr>viewport := SetYOffset v (viewport m1)\<rparr>" | "m2 = m1"
    by (auto simp: Let_def split: if_splits)
  then have "cols m2 = cols m1 \<and> rows m2 = rows m1 \<and> paddings m2 = paddings m1
    \<and> cursor_col m2 = cursor_col m1 \<and> cursor_row m2 = cursor_row m1
    \<and> Height (viewport m2) = Height (viewport m1)"
    by cases simp_all
  with f show "cols m2 = cols m" "rows m2 = rows m" "paddings m2 = paddings m"
    "cursor_col m2 = cursor_col m" "cursor_row m2 = ?c"
    "Height (viewport m2) = Height (viewport m)"
    by simp_all
qed

lemma MoveUp_Inr:
  assumes "MoveUp n m = Inr m1"
  obtains y where
    "UpdateViewport
       (m\<lparr>cursor_row := clamp (wrap64 (cursor_row m - n)) 0 (int (length (rows m)) - 1),
          viewport := (viewport m)\<lparr>YOffset := y\<rparr>\<rparr>) = Inr m1"
proof -
  let ?c = "clamp (wrap64 (cursor_row m - n)) 0 (int (length (rows m)) - 1)"
  let ?vp = "viewport m"
  have a: "?vp\<lparr>YOffset := YOffset ?vp\<rparr> = ?vp" by simp
  have b: "SetYOffset v ?vp = ?vp\<lparr>YOffset := clamp v 0 (maxYOffset ?vp)\<rparr>" for v
    by (simp add: SetYOffset_def)
  show ?thesis
  proof (cases "start m = 0")
    case True
    with assms that [of "clamp (clamp (YOffset ?vp) 0 ?c) 0 (maxYOffset ?vp)"] show ?thesis
      by (simp add: MoveUp_def Let_def b)
  next
    case s: False
    show ?thesis
    proof (cases "start m < Height ?vp")
      case True
      with s assms that [of "clamp (clamp (wrap64 (YOffset ?vp + n)) 0 ?c) 0 (Height ?vp)"]
      show ?thesis by (simp add: MoveUp_def Let_def)
    next
      case h: False
      show ?thesis
      proof (cases "YOffset ?vp \<ge> 1")
        case True
        with s h assms that [of "clamp (wrap64 (YOffset ?vp + n)) 1 (Height ?vp)"]
        show ?thesis by (simp add: MoveUp_def Let_def)
      next
        case False
        with s h assms that [of "YOffset ?vp"] a show ?thesis
          by (simp add: MoveUp_def Let_def)
      qed
    qed
  qed
qed

lemma MoveUp_fields:
  assumes "MoveUp n m = Inr m1"
  shows "cols m1 = cols m" and "rows m1 = rows m" and "paddings m1 = paddings m"
    and "cursor_col m1 = cursor_col m"
    and "cursor_row m1 = clamp (wrap64 (cursor_row m - n)) 0 (int (length (rows m)) - 1)"
    and "Height (viewport m1) = Height (viewport m)"
proof -
  from assms obtain y where
    u: "UpdateViewport
       (m\<lparr>cursor_row := clamp (wrap64 (cursor_row m - n)) 0 (int (length (rows m)) - 1),
          viewport := (viewport m)\<lparr>YOffset := y\<rparr>\<rparr>) = Inr m1"
    by (rule MoveUp_Inr)
  note f = UpdateViewport_Inr [OF u]
  from f show "cols m1 = cols m" "rows m1 = rows m" "paddings m1 = paddings m"
    "cursor_col m1 = cursor_col m"
    "cursor_row m1 = clamp (wrap64 (cursor_row m - n)) 0 (int (length (rows m)) - 1)"
    "Height (viewport m1) = Height (viewport m)"
    by simp_all
qed

lemma MoveRight_fields:
  assumes "MoveRight n m = Inr m1"
  shows "cols m1 = cols m" and "rows m1 = rows m" and "paddings m1 = paddings m"
    and "cursor_row m1 = cursor_row m"
    and "cursor_col m1 = clamp (wrap64 (cursor_col m + n)) 0 (int (length (cols m)) - 1)"
    and "Height (viewport m1) = Height (viewport m)"
  using UpdateViewport_Inr [OF assms [unfolded MoveRight_def]] by simp_all

lemma MoveLeft_fields:
  assumes "MoveLeft n m = Inr m1"
  shows "cols m1 = cols m" and "rows m1 = rows m" and "paddings m1 = paddings m"
    and "cursor_row m1 = cursor_row m"
    and "cursor_col m1 = clamp (wrap64 (cursor_col m - n)) 0 (int (length (cols m)) - 1)"
    and "Height (viewport m1) = Height (viewport m)"
  using UpdateViewport_Inr [OF assms [unfolded MoveLeft_def]] by simp_all

lemma renderRow_Inr:
  assumes "renderRow m r = Inr l"
  shows "\<exists>cs. l = RowLine r cs (r = cursor_row m)"
  using assms by (auto simp: renderRow_def Let_def split: if_splits sum.splits)

lemma renderRow_viewport [simp]: "renderRow (m\<lparr>viewport := vp\<rparr>) = renderRow m"
  by (rule ext) (simp add: renderRow_def Let_def cong: sum.case_cong)

lemma UpdateViewport_content:
  assumes "UpdateViewport m = Inr m1"
  shows "\<exists>rs. collect (renderRow m1) [start m1 .. end' m1 - 1] = Inr rs \<and>
              lines (viewport m1) = JoinVertical rs"
  using assms by (auto simp: UpdateViewport_def Let_def split: sum.splits)

lemma MoveDown_content:
  assumes "MoveDown n m = Inr m2"
  shows "\<exists>rs. collect (renderRow m2) [start m2 .. end' m2 - 1] = Inr rs \<and>
              lines (viewport m2) = JoinVertical rs"
proof -
  from assms obtain m1 where
    u1: "UpdateViewport
       (m\<lparr>cursor_row := clamp (wrap64 (cursor_row m + n)) 0 (int (length (rows m)) - 1)\<rparr>)
     = Inr m1"
    and m2: "m2 = (let vp = viewport m1
               in if end' m1 = int (length (rows m1)) \<and> YOffset vp > 0 then
                    m1\<lparr>viewport := SetYOffset (clamp (wrap64 (YOffset vp - n)) 1 (Height vp)) vp\<rparr>
                  else if cursor_row m1 > quo (end' m1 - start m1) 2 \<and> YOffset vp > 0 then
                    m1\<lparr>viewport := SetYOffset (clamp (wrap64 (YOffset vp - n)) 1 (cursor_row m1)) vp\<rparr>
                  else if YOffset vp > 1 then m1
                  else if cursor_row m1 > YOffset vp + Height vp - 1 then
                    m1\<lparr>viewport := SetYOffset (clamp (YOffset vp + 1) 0 1) vp\<rparr>
                  else m1)"
    by (rule MoveDown_Inr)
  from m2 consider v where "m2 = m1\<lparr>viewport := SetYOffset v (viewport m1)\<rparr>" | "m2 = m1"
    by (auto simp: Let_def split: if_splits)
  then have "renderRow m2 = renderRow m1 \<and> start m2 = start m1 \<and> end' m2 = end' m1
             \<and> lines (viewport m2) = lines (viewport m1)"
    by cases simp_all
  with UpdateViewport_content [OF u1] show ?thesis by simp
qed

lemma MoveUp_total:
  assumes "rows m = []"
  shows "\<exists>m1. MoveUp n m = Inr m1"
proof -
  have "\<exists>m1. UpdateViewport m2 = Inr m1" if "rows m2 = []" for m2
    using that by (intro UpdateViewport_total) simp_all
  then show ?thesis using assms unfolding MoveUp_def Let_def by simp
qed

lemma MoveDown_total:
  assumes "rows m = []"
  shows "\<exists>m1. MoveDown n m = Inr m1"
proof -
  have "\<exists>m1. UpdateViewport m2 = Inr m1" if "rows m2 = []" for m2
    using that by (intro UpdateViewport_total) simp_all
  from this [of "m\<lparr>cursor_row := clamp (wrap64 (cursor_row m + n)) 0 (int (length (rows m)) - 1)\<rparr>"]
  show ?thesis using assms unfolding MoveDown_def by auto
qed

section \<open>The invariants hold in every reachable state\<close>

lemma UpdateViewport_inv:
  assumes "cursor_inv m" and u: "UpdateViewport m = Inr m1"
  shows "cursor_inv m1 \<and> window_inv m1"
proof -
  note f = UpdateViewport_Inr [OF u]
  let ?c = "cursor_row m" and ?h = "Height (viewport m)" and ?y = "YOffset (viewport m)"
  let ?n = "int (length (rows m))"
  from assms(1) have h: "?h = min 30 ?n" and y: "0 \<le> ?y" "?y \<le> ?h"
    and c: "if rows m = [] then ?c = 0 \<or> ?c = - 1 else 0 \<le> ?c \<and> ?c < ?n"
    and cc: "if cols m = [] then cursor_col m = 0 \<or> cursor_col m = - 1
      else 0 \<le> cursor_col m \<and> cursor_col m < int (length (cols m))"
    unfolding cursor_inv_def by blast+
  let ?l = "max 1 (end' m1 - start m1)"
  have h0: "0 \<le> ?h" using h by simp
  have w: "end' m1 - start m1 \<le> 2 * ?h"
    using f(7,8) h0 c by (auto simp: clamp_def split: if_splits)
  have y1: "0 \<le> YOffset (viewport m1) \<and> YOffset (viewport m1) \<le> ?h
            \<and> YOffset (viewport m1) \<le> ?l - 1"
    using f(10) y w by (auto split: if_splits)
  show ?thesis
    using f(1-9) h c cc y1 by (simp add: cursor_inv_def window_inv_def)
qed

lemma New_inv:
  assumes "New [WithColumns cs, WithRows rs] = Inr m"
  shows "cursor_inv m \<and> window_inv m"
proof -
  note f = New_Inr [OF assms]
  have "clamp (min 30 (int (length rs))) 0 (int (length rs)) = min 30 (int (length rs))"
    by (simp add: clamp_def)
  with f show ?thesis
    by (auto simp: cursor_inv_def window_inv_def clamp_def)
qed

lemma cursor_inv_cursor_row:
  assumes "cursor_inv m"
  shows "cursor_inv (m\<lparr>cursor_row := clamp v 0 (int (length (rows m)) - 1)\<rparr>)"
  using assms clamp_row_valid [of "rows m" v]
  unfolding cursor_inv_def by (auto split: if_splits)

lemma cursor_inv_cursor_col:
  assumes "cursor_inv m"
  shows "cursor_inv (m\<lparr>cursor_col := clamp v 0 (int (length (cols m)) - 1)\<rparr>)"
  using assms clamp_col_valid [of "cols m" v]
  unfolding cursor_inv_def by (auto split: if_splits)

lemma MoveUp_inv:
  assumes i: "cursor_inv m" and u: "MoveUp n m = Inr m1"
  shows "cursor_inv m1 \<and> window_inv m1"
proof -
  let ?c = "clamp (wrap64 (cursor_row m - n)) 0 (int (length (rows m)) - 1)"
  let ?m1 = "m\<lparr>cursor_row := ?c\<rparr>"
  let ?vp = "viewport m"
  let ?h = "Height ?vp" and ?y = "YOffset ?vp"
  let ?m2 = "(if start m = 0 then
                  ?m1\<lparr>viewport := SetYOffset (clamp ?y 0 ?c) ?vp\<rparr>
                else if start m < ?h then
                  ?m1\<lparr>viewport := ?vp\<lparr>YOffset :=
                       clamp (clamp (wrap64 (?y + n)) 0 ?c) 0 ?h\<rparr>\<rparr>
                else if ?y \<ge> 1 then
                  ?m1\<lparr>viewport := ?vp\<lparr>YOffset := clamp (wrap64 (?y + n)) 1 ?h\<rparr>\<rparr>
                else ?m1)"
  from u have u2: "UpdateViewport ?m2 = Inr m1" by (simp add: MoveUp_def Let_def cong: if_cong)
  from i have h: "?h = min 30 (int (length (rows m)))" and y: "0 \<le> ?y" "?y \<le> ?h"
    and cc: "if cols m = [] then cursor_col m = 0 \<or> cursor_col m = - 1
      else 0 \<le> cursor_col m \<and> cursor_col m < int (length (cols m))"
    unfolding cursor_inv_def by blast+
  have f: "cols ?m2 = cols m" "rows ?m2 = rows m" "cursor_col ?m2 = cursor_col m"
    "cursor_row ?m2 = ?c" "Height (viewport ?m2) = ?h"
    by simp_all
  have h0: "0 \<le> ?h" using h by simp
  have y2: "0 \<le> YOffset (viewport ?m2) \<and> YOffset (viewport ?m2) \<le> ?h"
    using y h0 by (auto simp: YOffset_SetYOffset clamp_def)
  have "cursor_inv ?m2"
    unfolding cursor_inv_def f using h cc y2 clamp_row_valid [of "rows m" "wrap64 (cursor_row m - n)"]
    by (simp split: if_splits)
  from UpdateViewport_inv [OF this u2] show ?thesis .
qed

lemma window_width:
  assumes "cursor_inv m" "window_inv m"
  shows "end' m - start m \<le> 2 * Height (viewport m)"
proof -
  from assms(1) have "0 \<le> Height (viewport m)"
    and "if rows m = [] then cursor_row m = 0 \<or> cursor_row m = - 1
      else 0 \<le> cursor_row m \<and> cursor_row m < int (length (rows m))"
    unfolding cursor_inv_def by auto
  moreover from assms(2) have "start m = (if cursor_row m \<ge> 0
                then clamp (cursor_row m - Height (viewport m)) 0 (cursor_row m) else 0)"
    "end' m = clamp (cursor_row m + Height (viewport m)) (cursor_row m)
                (int (length (rows m)))"
    unfolding window_inv_def by auto
  ultimately show ?thesis by (auto simp: clamp_def split: if_splits)
qed

lemma SetYOffset_inv:
  assumes c: "cursor_inv m" and w: "window_inv m" and ne: "rows m \<noteq> []"
  shows "cursor_inv (m\<lparr>viewport := SetYOffset v (viewport m)\<rparr>)
         \<and> window_inv (m\<lparr>viewport := SetYOffset v (viewport m)\<rparr>)"
proof -
  let ?h = "Height (viewport m)" and ?l = "int (length (lines (viewport m)))"
  from c ne have h: "1 \<le> ?h" unfolding cursor_inv_def by (cases "rows m") auto
  from w have l: "?l = max 1 (end' m - start m)" unfolding window_inv_def by auto
  from window_width [OF c w] l h have l2: "1 \<le> ?l" "?l \<le> 2 * ?h" by auto
  let ?y = "YOffset (SetYOffset v (viewport m))"
  have "0 \<le> ?y \<and> ?y \<le> ?h \<and> ?y \<le> ?l - 1"
    using h l2 by (auto simp: YOffset_SetYOffset clamp_def)
  with c w show ?thesis by (simp add: cursor_inv_def window_inv_def)
qed

lemma MoveDown_inv:
  assumes i: "cursor_inv m" and u: "MoveDown n m = Inr m2"
  shows "cursor_inv m2 \<and> window_inv m2"
proof -
  let ?c = "clamp (wrap64 (cursor_row m + n)) 0 (int (length (rows m)) - 1)"
  from u obtain m1 where
    u1: "UpdateViewport (m\<lparr>cursor_row := ?c\<rparr>) = Inr m1"
    and m2: "m2 = (let vp = viewport m1
               in if end' m1 = int (length (rows m1)) \<and> YOffset vp > 0 then
                    m1\<lparr>viewport := SetYOffset (clamp (wrap64 (YOffset vp - n)) 1 (Height vp)) vp\<rparr>
                  else if cursor_row m1 > quo (end' m1 - start m1) 2 \<and> YOffset vp > 0 then
                    m1\<lparr>viewport := SetYOffset (clamp (wrap64 (YOffset vp - n)) 1 (cursor_row m1)) vp\<rparr>
                  else if YOffset vp > 1 then m1
                  else if cursor_row m1 > YOffset vp + Height vp - 1 then
                    m1\<lparr>viewport := SetYOffset (clamp (YOffset vp + 1) 0 1) vp\<rparr>
                  else m1)"
    by (rule MoveDown_Inr)
  from UpdateViewport_inv [OF cursor_inv_cursor_row [OF i] u1]
  have i1: "cursor_inv m1" "window_inv m1" by auto
  note f = UpdateViewport_Inr [OF u1]
  show ?thesis
  proof (cases "rows m = []")
    case True
    with f(2,4) have "rows m1 = []" "cursor_row m1 = - 1" by (simp_all add: clamp_def)
    moreover from i1(1) this(1) have "YOffset (viewport m1) = 0" "Height (viewport m1) = 0"
      unfolding cursor_inv_def by auto
    ultimately have "m2 = m1" using m2 by (simp add: Let_def)
    with i1 show ?thesis by simp
  next
    case False
    with f(2) have ne: "rows m1 \<noteq> []" by simp
    from m2 consider v where "m2 = m1\<lparr>viewport := SetYOffset v (viewport m1)\<rparr>" | "m2 = m1"
      by (auto simp: Let_def split: if_splits)
    then show ?thesis
    proof cases
      case 1
      with SetYOffset_inv [OF i1 ne] show ?thesis by simp
    next
      case 2
      with i1 show ?thesis by simp
    qed
  qed
qed

lemma MoveRight_inv:
  assumes i: "cursor_inv m" and u: "MoveRight n m = Inr m1"
  shows "cursor_inv m1 \<and> window_inv m1"
  using UpdateViewport_inv [OF cursor_inv_cursor_col [OF i]] u
  unfolding MoveRight_def by blast

lemma MoveLeft_inv:
  assumes i: "cursor_inv m" and u: "MoveLeft n m = Inr m1"
  shows "cursor_inv m1 \<and> window_inv m1"
  using UpdateViewport_inv [OF cursor_inv_cursor_col [OF i]] u
  unfolding MoveLeft_def by blast

lemma reachable_inv: "reachable m \<Longrightarrow> cursor_inv m \<and> window_inv m"
proof (induction rule: reachable.induct)
  case (reach_New cs rs m)
  then show ?case by (rule New_inv)
next
  case (reach_MoveUp m n m1)
  then show ?case using MoveUp_inv by blast
next
  case (reach_MoveDown m n m1)
  then show ?case using MoveDown_inv by blast
next
  case (reach_MoveLeft m n m1)
  then show ?case using MoveLeft_inv by blast
next
  case (reach_MoveRight m n m1)
  then show ?case using MoveRight_inv by blast
qed

lemma UpdateViewport_same_window:
  assumes w: "window_inv m" and u: "UpdateViewport (m\<lparr>cursor_col := x\<rparr>) = Inr m1"
  shows "YOffset (viewport m1) = YOffset (viewport m)"
proof -
  note f = UpdateViewport_Inr [OF u]
  from w f(7,8) have se: "start m1 = start m" "end' m1 = end' m"
    unfolding window_inv_def by simp_all
  from w have "YOffset (viewport m) \<le> max 1 (end' m - start m) - 1"
    unfolding window_inv_def by auto
  then have "\<not> YOffset (viewport m) > max 1 (end' m1 - start m1) - 1"
    unfolding se by simp
  moreover from f(10) have "YOffset (viewport m1) =
           (if YOffset (viewport m) > max 1 (end' m1 - start m1) - 1
            then max 0 (max 1 (end' m1 - start m1) - Height (viewport m))
            else YOffset (viewport m))"
    by simp
  ultimately show ?thesis by simp
qed

lemma MoveDown_keeps_offset_visible:
  assumes i: "cursor_inv m" and w: "window_inv m" and n: "1 \<le> n"
    and c1: "c1 = clamp (cursor_row m + n) 0 (int (length (rows m)) - 1)"
  shows "YOffset (viewport m)
         \<le> max 1 (clamp (c1 + Height (viewport m)) c1 (int (length (rows m)))
                   - (if c1 \<ge> 0 then clamp (c1 - Height (viewport m)) 0 c1 else 0)) - 1"
proof -
  let ?N = "int (length (rows m))" and ?h = "Height (viewport m)" and ?y = "YOffset (viewport m)"
  from i have h: "?h = min 30 ?N" and y: "0 \<le> ?y" "?y \<le> ?h"
    and c: "if rows m = [] then cursor_row m = 0 \<or> cursor_row m = - 1
      else 0 \<le> cursor_row m \<and> cursor_row m < ?N"
    unfolding cursor_inv_def by blast+
  from w have s: "start m = (if cursor_row m \<ge> 0
                then clamp (cursor_row m - ?h) 0 (cursor_row m) else 0)"
    and e: "end' m = clamp (cursor_row m + ?h) (cursor_row m) ?N"
    and l: "?y \<le> max 1 (end' m - start m) - 1"
    unfolding window_inv_def by auto
  consider "?N = 0" | "1 \<le> ?N" "?N \<le> 30" | "30 < ?N" by linarith
  then show ?thesis
  proof cases
    case 1
    with h y show ?thesis by simp
  next
    case 2
    then have "rows m \<noteq> []" by (cases "rows m") simp_all
    with c have cb: "0 \<le> cursor_row m" "cursor_row m < ?N" by auto
    from 2 h have hN: "?h = ?N" by simp
    from cb hN s e have "end' m - start m = ?N" by (simp add: clamp_def)
    with l have "?y \<le> ?N - 1" using 2 by simp
    moreover from 2 c1 have "0 \<le> c1" "c1 < ?N" by (auto simp: clamp_def)
    ultimately show ?thesis using hN by (simp add: clamp_def)
  next
    case 3
    then have "rows m \<noteq> []" by (cases "rows m") simp_all
    with c have cb: "0 \<le> cursor_row m" "cursor_row m < ?N" by auto
    from 3 h have h30: "?h = 30" by simp
    from 3 cb n c1 have "1 \<le> c1" "c1 < ?N" by (auto simp: clamp_def)
    with 3 h30 y show ?thesis by (auto simp: clamp_def)
  qed
qed

subsection \<open>Rendering never fails in a reachable state with a column to draw\<close>

lemma New_render_inv:
  assumes "New [WithColumns cs, WithRows rs] = Inr m"
  shows "render_inv m"
  using calc_paddings_Inr_conv [OF New_Inr(6) [OF assms]] New_Inr(2,4) [OF assms]
  by (simp add: render_inv_def)

lemma UpdateViewport_cursor_col:
  assumes i: "cursor_inv m" and ne: "rows m \<noteq> []" and u: "UpdateViewport m = Inr m1"
  shows "0 \<le> cursor_col m"
proof (rule ccontr)
  assume "\<not> 0 \<le> cursor_col m"
  then have neg: "cursor_col m < 0" by simp
  let ?c = "cursor_row m" and ?h = "Height (viewport m)" and ?N = "int (length (rows m))"
  let ?st = "if ?c \<ge> 0 then clamp (?c - ?h) 0 ?c else 0"
  let ?en = "clamp (?c + ?h) ?c ?N"
  let ?m1 = "m\<lparr>start := ?st, end' := ?en\<rparr>"
  from i ne have c: "0 \<le> ?c" "?c < ?N" and h: "?h = min 30 ?N"
    unfolding cursor_inv_def by auto
  from c h have "?st \<le> ?c \<and> ?c \<le> ?en - 1" by (auto simp: clamp_def)
  then have a: "?c \<in> set [?st .. ?en - 1]" by simp
  from neg c have "\<exists>e. renderRow ?m1 ?c = Inl e"
    by (intro renderRow_negative_col) simp_all
  then obtain e where b: "renderRow ?m1 ?c = Inl e" ..
  from collect_fails [where f = "renderRow ?m1", OF a b] obtain e1 where
    "collect (renderRow ?m1) [?st .. ?en - 1] = Inl e1" ..
  with u show False by (simp add: UpdateViewport_def Let_def)
qed

lemma reachable_render_inv: "reachable m \<Longrightarrow> render_inv m"
proof (induction rule: reachable.induct)
  case (reach_New cs rs m)
  then show ?case by (rule New_render_inv)
next
  case (reach_MoveUp m n m1)
  with MoveUp_fields(2,3,4) [of n m m1] show ?case by (simp add: render_inv_def)
next
  case (reach_MoveDown m n m1)
  with MoveDown_fields(2,3,4) [of n m m1] show ?case by (simp add: render_inv_def)
next
  case (reach_MoveLeft m n m1)
  let ?m = "m\<lparr>cursor_col := clamp (wrap64 (cursor_col m - n)) 0 (int (length (cols m)) - 1)\<rparr>"
  from reach_MoveLeft have u: "UpdateViewport ?m = Inr m1" by (simp add: MoveLeft_def)
  from reachable_inv [OF reach_MoveLeft(1)] have "cursor_inv ?m"
    using cursor_inv_cursor_col by blast
  from UpdateViewport_cursor_col [OF this _ u] have "0 \<le> cursor_col ?m \<or> rows m = []"
    by auto
  with reach_MoveLeft MoveLeft_fields(2,3,5) [of n m m1] show ?case
    by (simp add: render_inv_def)
next
  case (reach_MoveRight m n m1)
  let ?m = "m\<lparr>cursor_col := clamp (wrap64 (cursor_col m + n)) 0 (int (length (cols m)) - 1)\<rparr>"
  from reach_MoveRight have u: "UpdateViewport ?m = Inr m1" by (simp add: MoveRight_def)
  from reachable_inv [OF reach_MoveRight(1)] have "cursor_inv ?m"
    using cursor_inv_cursor_col by blast
  from UpdateViewport_cursor_col [OF this _ u] have "0 \<le> cursor_col ?m \<or> rows m = []"
    by auto
  with reach_MoveRight MoveRight_fields(2,3,5) [of n m m1] show ?case
    by (simp add: render_inv_def)
qed

lemma UpdateViewport_render_inv:
  assumes "render_inv m"
  shows "\<exists>m1. UpdateViewport m = Inr m1"
  using assms unfolding render_inv_def by (intro UpdateViewport_total) simp_all

lemma MoveDown_reachable_total:
  assumes "reachable m"
  shows "\<exists>m1. MoveDown n m = Inr m1"
proof -
  let ?m = "m\<lparr>cursor_row := clamp (wrap64 (cursor_row m + n)) 0 (int (length (rows m)) - 1)\<rparr>"
  from reachable_render_inv [OF assms] have "render_inv ?m" by (simp add: render_inv_def)
  from UpdateViewport_render_inv [OF this] show ?thesis
    unfolding MoveDown_def by auto
qed

lemma MoveUp_reachable_total:
  assumes "reachable m"
  shows "\<exists>m1. MoveUp n m = Inr m1"
proof -
  have "\<exists>m1. UpdateViewport m2 = Inr m1"
    if "rows m2 = rows m" "paddings m2 = paddings m" "cursor_col m2 = cursor_col m" for m2
    using reachable_render_inv [OF assms] that
    by (intro UpdateViewport_render_inv) (simp add: render_inv_def)
  then show ?thesis unfolding MoveUp_def Let_def by simp
qed

lemma MoveRight_reachable_total:
  assumes "reachable m" and "cols m \<noteq> [] \<or> rows m = []"
  shows "\<exists>m1. MoveRight n m = Inr m1"
proof -
  let ?m = "m\<lparr>cursor_col := clamp (wrap64 (cursor_col m + n)) 0 (int (length (cols m)) - 1)\<rparr>"
  from assms(2) clamp_col_valid [of "cols m" "wrap64 (cursor_col m + n)"]
  have "0 \<le> cursor_col ?m \<or> rows m = []" by (auto split: if_splits)
  with reachable_render_inv [OF assms(1)] have "render_inv ?m" by (simp add: render_inv_def)
  from UpdateViewport_render_inv [OF this] show ?thesis unfolding MoveRight_def .
qed

lemma MoveLeft_reachable_total:
  assumes "reachable m" and "cols m \<noteq> [] \<or> rows m = []"
  shows "\<exists>m1. MoveLeft n m = Inr m1"
proof -
  let ?m = "m\<lparr>cursor_col := clamp (wrap64 (cursor_col m - n)) 0 (int (length (cols m)) - 1)\<rparr>"
  from assms(2) clamp_col_valid [of "cols m" "wrap64 (cursor_col m - n)"]
  have "0 \<le> cursor_col ?m \<or> rows m = []" by (auto split: if_splits)
  with reachable_render_inv [OF assms(1)] have "render_inv ?m" by (simp add: render_inv_def)
  from UpdateViewport_render_inv [OF this] show ?thesis unfolding MoveLeft_def .
qed

lemma Update_reachable:
  assumes "reachable m" and "Update k m = Inr m1"
  shows "reachable m1"
  using assms by (cases k) (auto intro: reachable.intros)

section \<open>Construction\<close>

text \<open>
  C1 (viewport height at construction). The claim: the height is the minimum of the
  configured maximum visible row count (flag \<open>-height\<close>, default 20) and the row count.
  The program parses the flag into \<open>table_height\<close> and never passes it on: \<open>New\<close> uses
  the constant 30. With the default configuration and a file of 25 data rows the viewport
  is 25 rows high, above the configured maximum of 20.
\<close>

theorem main_table_height_ignores_flag:
  "\<exists>m. main_table \<lparr>filename = ''data.csv'', file_type = ''auto'', delimiter = 0,
                     table_height = 20\<rparr> [''c''] (replicate 25 [''x'']) = Inr m
       \<and> Height (viewport m) = 25"
proof -
  have "case main_table \<lparr>filename = ''data.csv'', file_type = ''auto'', delimiter = 0,
                          table_height = 20\<rparr> [''c''] (replicate 25 [''x'']) of
          Inl e \<Rightarrow> False
        | Inr m \<Rightarrow> Height (viewport m) = 25"
    by code_simp
  then show ?thesis by (rule sum_case_ex)
qed

text \<open>
  C6 (column width table). For every rectangular grid construction succeeds, the width
  table has one entry per column, and the entry of column \<open>i\<close> is one more than the
  largest length of a string in that column, the header included.
\<close>

theorem column_width_table:
  assumes "list_all (\<lambda>r. length r = length cs) rs" and "i < length cs"
  shows "\<exists>m. New [WithColumns cs, WithRows rs] = Inr m \<and> length (paddings m) = length cs \<and>
          paddings m ! i = 1 + Max ((\<lambda>r. int (length (r ! i))) ` set (cs # rs))"
proof -
  let ?m2 = "\<lparr>cols = cs, rows = rs, paddings = [], cursor_row = 0, cursor_col = 0,
            viewport = viewport_New 0 (min 30 (int (length rs))), start = 0, end' = 0\<rparr>"
  from New_total [OF assms(1)] obtain m where m: "New [WithColumns cs, WithRows rs] = Inr m"
    by auto
  from calc_paddings_Inr [of ?m2] assms New_Inr(6) [OF m]
  have "length (paddings m) = length cs \<and>
          paddings m ! i = 1 + Max ((\<lambda>r. int (length (r ! i))) ` set (cs # rs))"
    by auto
  with m show ?thesis by blast
qed

theorem column_width_table_witness:
  "list_all (\<lambda>r. length r = length [''ID'', ''Name''])
     [[''1'', ''Ann''], [''2'', ''Bob''], [''3'', ''Cory'']] \<and> (1::nat) < length [''ID'', ''Name''] \<and>
   (\<exists>m. New [WithColumns [''ID'', ''Name''],
              WithRows [[''1'', ''Ann''], [''2'', ''Bob''], [''3'', ''Cory'']]] = Inr m \<and>
        length (paddings m) = 2 \<and> paddings m ! 1 = 5)"
  using column_width_table [of "[''ID'', ''Name'']"
      "[[''1'', ''Ann''], [''2'', ''Bob''], [''3'', ''Cory'']]" 1]
  by (simp add: numeral_2_eq_2)

section \<open>The visible window\<close>

text \<open>
  C2 (window size). The claim: after every recomputation \<open>end - start\<close> is at most the
  visible height, equal to it unless there are fewer rows than the height, and then equal
  to the row count. The window holds up to \<open>Height\<close> rows on each side of the cursor: in
  a table of 31 rows, one step down from the top makes it 31 rows long under a height
  of 30.
\<close>

theorem window_size_counterexample:
  "\<not> (\<forall>m. reachable m \<longrightarrow>
         end' m - start m \<le> Height (viewport m) \<and>
         (if int (length (rows m)) < Height (viewport m)
          then end' m - start m = int (length (rows m))
          else end' m - start m = Height (viewport m)))"
proof -
  let ?g = "New [WithColumns [''c''], WithRows (replicate 31 [''x''])]"
  have "case ?g of Inl e \<Rightarrow> False
        | Inr m0 \<Rightarrow> (case MoveDown 1 m0 of Inl e \<Rightarrow> False
            | Inr m \<Rightarrow> end' m - start m = 31 \<and> Height (viewport m) = 30)"
    by code_simp
  then obtain m0 m where g: "?g = Inr m0" and m: "MoveDown 1 m0 = Inr m"
    and c: "end' m - start m = 31" "Height (viewport m) = 30"
    by (auto split: sum.splits)
  have "reachable m" by (rule reach_MoveDown [OF reach_New [OF g] m])
  with c show ?thesis by force
qed

text \<open>
  C2, amended. In every reachable state the height is \<open>min 30 rowCount\<close> and
  \<open>end - start\<close> is at most twice the height. With at least one row it is
  \<open>min cursor_row Height + min Height (rowCount - cursor_row)\<close>, which is the row count
  whenever the row count is at most the height (at most 30 rows). Without rows it is
  \<open>cursor_row\<close>, that is 0 after construction and -1 after a vertical move.
\<close>

theorem window_size:
  assumes "reachable m"
  shows "end' m - start m \<le> 2 * Height (viewport m)
       \<and> Height (viewport m) = min 30 (int (length (rows m)))
       \<and> (if rows m = [] then end' m - start m = cursor_row m
          else if int (length (rows m)) \<le> Height (viewport m)
          then end' m - start m = int (length (rows m))
          else end' m - start m = min (cursor_row m) (Height (viewport m))
                 + min (Height (viewport m)) (int (length (rows m)) - cursor_row m))"
proof -
  from reachable_inv [OF assms] have i: "cursor_inv m" and w: "window_inv m" by simp_all
  from i have h: "Height (viewport m) = min 30 (int (length (rows m)))"
    and c: "if rows m = [] then cursor_row m = 0 \<or> cursor_row m = - 1
      else 0 \<le> cursor_row m \<and> cursor_row m < int (length (rows m))"
    unfolding cursor_inv_def by blast+
  from w have s: "start m = (if cursor_row m \<ge> 0
                then clamp (cursor_row m - Height (viewport m)) 0 (cursor_row m) else 0)"
    and e: "end' m = clamp (cursor_row m + Height (viewport m)) (cursor_row m)
                (int (length (rows m)))"
    unfolding window_inv_def by blast+
  have "if rows m = [] then end' m - start m = cursor_row m
          else if int (length (rows m)) \<le> Height (viewport m)
          then end' m - start m = int (length (rows m))
          else end' m - start m = min (cursor_row m) (Height (viewport m))
                 + min (Height (viewport m)) (int (length (rows m)) - cursor_row m)"
  proof (cases "rows m = []")
    case True
    with h c s e show ?thesis by (auto simp: clamp_def)
  next
    case False
    with c have "0 \<le> cursor_row m" "cursor_row m < int (length (rows m))" by simp_all
    with False h s e show ?thesis by (auto simp: clamp_def)
  qed
  with window_width [OF i w] h show ?thesis by simp
qed

theorem window_size_witness:
  "\<exists>m. reachable m \<and> rows m \<noteq> [] \<and> \<not> int (length (rows m)) \<le> Height (viewport m) \<and>
     cursor_row m = 1 \<and> Height (viewport m) = 30 \<and> end' m - start m = 31"
proof -
  let ?g = "New [WithColumns [''c''], WithRows (replicate 31 [''x''])]"
  have "case ?g of Inl e \<Rightarrow> False
        | Inr m0 \<Rightarrow> (case MoveDown 1 m0 of Inl e \<Rightarrow> False
            | Inr m \<Rightarrow> cursor_row m = 1 \<and> length (rows m) = 31)"
    by code_simp
  then obtain m0 m where g: "?g = Inr m0" and m: "MoveDown 1 m0 = Inr m"
    and c: "cursor_row m = 1" "length (rows m) = 31"
    by (auto split: sum.splits)
  have r: "reachable m" by (rule reach_MoveDown [OF reach_New [OF g] m])
  from c have ne: "rows m \<noteq> []" by auto
  from window_size [OF r] c ne r show ?thesis
    by (intro exI [of _ m]) (auto split: if_splits)
qed

text \<open>
  C7 (cursor inside the window). The claim: after every recomputation
  \<open>start \<le> cursor_row < end\<close>, or \<open>end = start = 0\<close> when there are no rows. In a table
  with a header and no rows, one step down sets \<open>cursor_row\<close> to -1 and the recomputed
  window is \<open>start = 0\<close>, \<open>end = -1\<close>.
\<close>

theorem cursor_in_window_counterexample:
  "\<not> (\<forall>m. reachable m \<longrightarrow>
         (start m \<le> cursor_row m \<and> cursor_row m < end' m)
         \<or> (rows m = [] \<and> end' m = 0 \<and> start m = 0))"
proof -
  let ?g = "New [WithColumns [''ID'', ''Name''], WithRows []]"
  have "case ?g of Inl e \<Rightarrow> False
        | Inr m0 \<Rightarrow> (case MoveDown 1 m0 of Inl e \<Rightarrow> False
            | Inr m \<Rightarrow> cursor_row m = - 1 \<and> start m = 0 \<and> end' m = - 1)"
    by code_simp
  then obtain m0 m where g: "?g = Inr m0" and m: "MoveDown 1 m0 = Inr m"
    and c: "cursor_row m = - 1" "start m = 0" "end' m = - 1"
    by (auto split: sum.splits)
  have "reachable m" by (rule reach_MoveDown [OF reach_New [OF g] m])
  with c show ?thesis by force
qed

text \<open>
  C7, amended. In every reachable state with at least one row,
  \<open>start \<le> cursor_row < end\<close>. Without rows \<open>start = 0\<close> and \<open>end = cursor_row\<close>, which is
  0 after construction and -1 after a vertical move; the window is empty in both cases.
\<close>

theorem cursor_in_window:
  assumes "reachable m"
  shows "if rows m = []
         then start m = 0 \<and> end' m = cursor_row m \<and> (cursor_row m = 0 \<or> cursor_row m = - 1)
         else start m \<le> cursor_row m \<and> cursor_row m < end' m"
proof -
  from reachable_inv [OF assms] have i: "cursor_inv m" and w: "window_inv m" by simp_all
  from i have h: "Height (viewport m) = min 30 (int (length (rows m)))"
    and c: "if rows m = [] then cursor_row m = 0 \<or> cursor_row m = - 1
      else 0 \<le> cursor_row m \<and> cursor_row m < int (length (rows m))"
    unfolding cursor_inv_def by blast+
  from w have s: "start m = (if cursor_row m \<ge> 0
                then clamp (cursor_row m - Height (viewport m)) 0 (cursor_row m) else 0)"
    and e: "end' m = clamp (cursor_row m + Height (viewport m)) (cursor_row m)
                (int (length (rows m)))"
    unfolding window_inv_def by blast+
  show ?thesis
  proof (cases "rows m = []")
    case True
    with h c s e show ?thesis by (auto simp: clamp_def)
  next
    case False
    with c have "0 \<le> cursor_row m" "cursor_row m < int (length (rows m))" by simp_all
    with False h s e show ?thesis by (auto simp: clamp_def)
  qed
qed

theorem cursor_in_window_witness:
  "\<exists>m. reachable m \<and> rows m \<noteq> [] \<and> cursor_row m = 2 \<and> start m \<le> 2 \<and> 2 < end' m"
proof -
  let ?g = "New [WithColumns [''ID'', ''Name''],
                 WithRows [[''1'', ''Ann''], [''2'', ''Bob''], [''3'', ''Cory'']]]"
  have "case ?g of Inl e \<Rightarrow> False
        | Inr m0 \<Rightarrow> (case MoveDown 2 m0 of Inl e \<Rightarrow> False
            | Inr m \<Rightarrow> cursor_row m = 2 \<and> length (rows m) = 3)"
    by code_simp
  then obtain m0 m where g: "?g = Inr m0" and m: "MoveDown 2 m0 = Inr m"
    and c: "cursor_row m = 2" "length (rows m) = 3"
    by (auto split: sum.splits)
  have r: "reachable m" by (rule reach_MoveDown [OF reach_New [OF g] m])
  from c have ne: "rows m \<noteq> []" by auto
  from cursor_in_window [OF r] c ne r show ?thesis
    by (intro exI [of _ m]) (auto split: if_splits)
qed

section \<open>The cursor\<close>

text \<open>
  C3 (cursor in bounds). The claim: after every operation of every navigation sequence
  \<open>0 \<le> cursor_row \<le> rowCount - 1\<close> and \<open>0 \<le> cursor_col \<le> colCount - 1\<close>. In a table with
  a header and no rows there is no such row index, and one step down leaves
  \<open>cursor_row = -1\<close>.
\<close>

theorem cursor_in_bounds_counterexample:
  "\<not> (\<forall>m. reachable m \<longrightarrow>
         0 \<le> cursor_row m \<and> cursor_row m \<le> int (length (rows m)) - 1 \<and>
         0 \<le> cursor_col m \<and> cursor_col m \<le> int (length (cols m)) - 1)"
proof -
  let ?g = "New [WithColumns [''ID'', ''Name''], WithRows []]"
  have "case ?g of Inl e \<Rightarrow> False
        | Inr m0 \<Rightarrow> (case MoveDown 1 m0 of Inl e \<Rightarrow> False | Inr m \<Rightarrow> cursor_row m = - 1)"
    by code_simp
  then obtain m0 m where g: "?g = Inr m0" and m: "MoveDown 1 m0 = Inr m"
    and c: "cursor_row m = - 1"
    by (auto split: sum.splits)
  have "reachable m" by (rule reach_MoveDown [OF reach_New [OF g] m])
  with c show ?thesis by force
qed

text \<open>
  C3, amended. In every reachable state, \<open>0 \<le> cursor_row \<le> rowCount - 1\<close> when there is
  at least one row and \<open>cursor_row\<close> is 0 or -1 when there is none; the same holds of
  \<open>cursor_col\<close> and the columns. \<open>MoveRight colCount\<close>, when it returns, leaves
  \<open>cursor_col = colCount - 1\<close> (for a column count that is far from overflowing).
\<close>

theorem cursor_in_bounds:
  assumes "reachable m"
  shows "(if rows m = [] then cursor_row m = 0 \<or> cursor_row m = - 1
          else 0 \<le> cursor_row m \<and> cursor_row m \<le> int (length (rows m)) - 1)
       \<and> (if cols m = [] then cursor_col m = 0 \<or> cursor_col m = - 1
          else 0 \<le> cursor_col m \<and> cursor_col m \<le> int (length (cols m)) - 1)
       \<and> (int (length (cols m)) < 2 ^ 62 \<and> MoveRight (int (length (cols m))) m = Inr m1
            \<longrightarrow> cursor_col m1 = int (length (cols m)) - 1)"
proof -
  from reachable_inv [OF assms] have i: "cursor_inv m" by simp
  then have c: "if rows m = [] then cursor_row m = 0 \<or> cursor_row m = - 1
      else 0 \<le> cursor_row m \<and> cursor_row m < int (length (rows m))"
    and cc: "if cols m = [] then cursor_col m = 0 \<or> cursor_col m = - 1
      else 0 \<le> cursor_col m \<and> cursor_col m < int (length (cols m))"
    unfolding cursor_inv_def by blast+
  have "cursor_col m1 = int (length (cols m)) - 1"
    if b: "int (length (cols m)) < 2 ^ 62" and r: "MoveRight (int (length (cols m))) m = Inr m1"
  proof -
    from cc have cb: "- 1 \<le> cursor_col m" "cursor_col m \<le> int (length (cols m))"
      by (auto split: if_splits)
    with b have "wrap64 (cursor_col m + int (length (cols m))) = cursor_col m + int (length (cols m))"
      by (intro wrap64_id) simp_all
    with MoveRight_fields(5) [OF r] cc show ?thesis
      by (cases "cols m") (auto simp: clamp_def)
  qed
  with c cc show ?thesis by (auto split: if_splits)
qed

theorem cursor_in_bounds_witness:
  "\<exists>m m1. reachable m \<and> rows m \<noteq> [] \<and> cols m \<noteq> [] \<and>
     int (length (cols m)) < 2 ^ 62 \<and> MoveRight (int (length (cols m))) m = Inr m1 \<and>
     0 \<le> cursor_row m \<and> cursor_row m \<le> 2 \<and> 0 \<le> cursor_col m \<and> cursor_col m \<le> 1 \<and>
     cursor_col m1 = 1"
proof -
  let ?g = "New [WithColumns [''ID'', ''Name''],
                 WithRows [[''1'', ''Ann''], [''2'', ''Bob''], [''3'', ''Cory'']]]"
  have "case ?g of Inl e \<Rightarrow> False
        | Inr m \<Rightarrow> length (rows m) = 3 \<and> length (cols m) = 2 \<and>
            (case MoveRight 2 m of Inl e \<Rightarrow> False | Inr m1 \<Rightarrow> True)"
    by code_simp
  then obtain m m1 where g: "?g = Inr m" and l: "length (rows m) = 3" "length (cols m) = 2"
    and r: "MoveRight 2 m = Inr m1"
    by (auto split: sum.splits)
  have "reachable m" by (rule reach_New [OF g])
  from cursor_in_bounds [OF this, of m1] this l r show ?thesis
    by (intro exI [of _ m] exI [of _ m1]) (auto split: if_splits)
qed

text \<open>
  C4 (\<open>MoveDown n\<close> then \<open>MoveUp n\<close>). The claim: from every state and for every
  \<open>n \<ge> 1\<close> the pair returns \<open>cursor_row\<close> to its value. On the last row \<open>MoveDown 1\<close> is
  clamped and moves nothing, and \<open>MoveUp 1\<close> then goes one row up.
\<close>

theorem MoveDown_MoveUp_counterexample:
  "\<not> (\<forall>m n m1 m2. reachable m \<and> 1 \<le> n \<and> MoveDown n m = Inr m1 \<and> MoveUp n m1 = Inr m2
         \<longrightarrow> cursor_row m2 = cursor_row m)"
proof -
  let ?g = "New [WithColumns [''ID'', ''Name''],
                 WithRows [[''1'', ''Ann''], [''2'', ''Bob''], [''3'', ''Cory'']]]"
  have "case ?g of Inl e \<Rightarrow> False
        | Inr m0 \<Rightarrow> (case MoveDown 2 m0 of Inl e \<Rightarrow> False
           | Inr m \<Rightarrow> (case MoveDown 1 m of Inl e \<Rightarrow> False
              | Inr m1 \<Rightarrow> (case MoveUp 1 m1 of Inl e \<Rightarrow> False
                 | Inr m2 \<Rightarrow> cursor_row m = 2 \<and> cursor_row m1 = 2 \<and> cursor_row m2 = 1)))"
    by code_simp
  then obtain m0 m m1 m2 where g: "?g = Inr m0" and m: "MoveDown 2 m0 = Inr m"
    and d: "MoveDown 1 m = Inr m1" and u: "MoveUp 1 m1 = Inr m2"
    and c: "cursor_row m = 2" "cursor_row m2 = 1"
    by (auto split: sum.splits)
  have r: "reachable m" by (rule reach_MoveDown [OF reach_New [OF g] m])
  show ?thesis
  proof
    assume "\<forall>m n m1 m2. reachable m \<and> 1 \<le> n \<and> MoveDown n m = Inr m1 \<and> MoveUp n m1 = Inr m2
         \<longrightarrow> cursor_row m2 = cursor_row m"
    with r d u have "cursor_row m2 = cursor_row m" by force
    with c show False by simp
  qed
qed

lemma MoveDown_MoveUp_cursor_row:
  assumes "0 \<le> cursor_row m" and "1 \<le> n"
    and "cursor_row m + n \<le> int (length (rows m)) - 1"
    and "int (length (rows m)) \<le> 2 ^ 63"
    and "MoveDown n m = Inr m1" and "MoveUp n m1 = Inr m2"
  shows "cursor_row m2 = cursor_row m"
proof -
  from assms(1-4) have "wrap64 (cursor_row m + n) = cursor_row m + n"
    by (intro wrap64_id) simp_all
  with MoveDown_fields(2,5) [OF assms(5)] assms(1-3)
  have c1: "cursor_row m1 = cursor_row m + n" and r1: "rows m1 = rows m"
    by (simp_all add: clamp_def)
  from assms(1-4) have "wrap64 (cursor_row m) = cursor_row m"
    by (intro wrap64_id) simp_all
  with MoveUp_fields(5) [OF assms(6)] c1 r1 assms(1-3) show ?thesis
    by (simp add: clamp_def)
qed

text \<open>
  C4, amended. From every reachable state in which \<open>MoveDown n\<close> is not clamped
  (\<open>cursor_row + n \<le> rowCount - 1\<close>), \<open>MoveDown n\<close> and then \<open>MoveUp n\<close> both return, and
  \<open>cursor_row\<close> is back at its value. The scroll offset need not be
  (\<open>MoveDown_MoveUp_offset_not_restored\<close> below).
\<close>

theorem MoveDown_MoveUp_inverse:
  assumes r: "reachable m" and n: "1 \<le> n"
    and b: "cursor_row m + n \<le> int (length (rows m)) - 1"
    and l: "int (length (rows m)) \<le> 2 ^ 63"
  shows "\<exists>m1 m2. MoveDown n m = Inr m1 \<and> MoveUp n m1 = Inr m2 \<and>
           cursor_row m1 = cursor_row m + n \<and> cursor_row m2 = cursor_row m"
proof -
  from reachable_inv [OF r] have "if rows m = [] then cursor_row m = 0 \<or> cursor_row m = - 1
      else 0 \<le> cursor_row m \<and> cursor_row m < int (length (rows m))"
    unfolding cursor_inv_def by blast
  with n b have c: "0 \<le> cursor_row m" by (auto split: if_splits)
  from MoveDown_reachable_total [OF r] obtain m1 where d: "MoveDown n m = Inr m1" ..
  from MoveUp_reachable_total [OF reach_MoveDown [OF r d]] obtain m2 where
    u: "MoveUp n m1 = Inr m2" ..
  from c n b l have "wrap64 (cursor_row m + n) = cursor_row m + n"
    by (intro wrap64_id) simp_all
  with MoveDown_fields(5) [OF d] c n b have "cursor_row m1 = cursor_row m + n"
    by (simp add: clamp_def)
  with d u MoveDown_MoveUp_cursor_row [OF c n b l d u] show ?thesis by blast
qed

theorem MoveDown_MoveUp_inverse_witness:
  "\<exists>m m1 m2. reachable m \<and> (1::int) \<le> 2 \<and> cursor_row m + 2 \<le> int (length (rows m)) - 1 \<and>
     int (length (rows m)) \<le> 2 ^ 63 \<and> cursor_row m = 0 \<and>
     MoveDown 2 m = Inr m1 \<and> MoveUp 2 m1 = Inr m2 \<and> cursor_row m1 = 2 \<and> cursor_row m2 = 0"
proof -
  let ?g = "New [WithColumns [''ID'', ''Name''],
                 WithRows [[''1'', ''Ann''], [''2'', ''Bob''], [''3'', ''Cory'']]]"
  have "case ?g of Inl e \<Rightarrow> False | Inr m \<Rightarrow> cursor_row m = 0 \<and> length (rows m) = 3"
    by code_simp
  then obtain m where g: "?g = Inr m" and c: "cursor_row m = 0" "length (rows m) = 3"
    by (auto split: sum.splits)
  have r: "reachable m" by (rule reach_New [OF g])
  from MoveDown_MoveUp_inverse [OF r, of 2] c r show ?thesis by auto
qed

lemma MoveDown_MoveUp_offset_not_restored:
  "\<exists>m n m1 m2. reachable m \<and> 1 \<le> n \<and> 0 \<le> cursor_row m \<and>
     cursor_row m + n \<le> int (length (rows m)) - 1 \<and>
     MoveDown n m = Inr m1 \<and> MoveUp n m1 = Inr m2 \<and>
     cursor_row m2 = cursor_row m \<and> YOffset (viewport m2) \<noteq> YOffset (viewport m)"
proof -
  let ?g = "New [WithColumns [''c''], WithRows (replicate 40 [''x''])]"
  have "case ?g of Inl e \<Rightarrow> False
        | Inr m0 \<Rightarrow> (case MoveDown 10 m0 of Inl e \<Rightarrow> False
          | Inr m \<Rightarrow> (case MoveDown 25 m of Inl e \<Rightarrow> False
            | Inr m1 \<Rightarrow> (case MoveUp 25 m1 of Inl e \<Rightarrow> False
              | Inr m2 \<Rightarrow> length (rows m) = 40 \<and> cursor_row m = 10 \<and> cursor_row m2 = 10 \<and>
                  YOffset (viewport m) = 0 \<and> YOffset (viewport m2) = 10)))"
    by code_simp
  then obtain m0 m m1 m2 where g: "?g = Inr m0" and m: "MoveDown 10 m0 = Inr m"
    and d: "MoveDown 25 m = Inr m1" and u: "MoveUp 25 m1 = Inr m2"
    and v: "length (rows m) = 40" "cursor_row m = 10" "cursor_row m2 = 10"
      "YOffset (viewport m) = 0" "YOffset (viewport m2) = 10"
    by (auto split: sum.splits)
  have r: "reachable m" by (rule reach_MoveDown [OF reach_New [OF g] m])
  with d u v show ?thesis
    by (intro exI [of _ m] exI [of _ 25] exI [of _ m1] exI [of _ m2]) simp
qed

section \<open>The scroll rules of \<open>MoveDown\<close>\<close>

text \<open>
  C5 (\<open>MoveDown\<close>: cursor and scroll offset). The claim: the cursor row becomes
  \<open>clamp (cursor_row + n) 0 (rowCount - 1)\<close> and the offset becomes what the first
  matching rule of the table says. The source hands the value of rules 1, 2 and 4 to the
  viewport's \<open>SetYOffset\<close>, which limits it to the content. In a table of 40 rows, after
  \<open>MoveDown 39\<close>, \<open>MoveUp 5\<close>, \<open>MoveUp 10\<close> the cursor is on row 24 with offset 16 and
  the window is rows 0 to 39, before and after one more step down; rule 1 asks for offset
  15, and the offset becomes 10.
\<close>

theorem MoveDown_scroll_rules_counterexample:
  "\<not> (\<forall>m n m1. reachable m \<and> 1 \<le> n \<and> MoveDown n m = Inr m1 \<longrightarrow>
         cursor_row m1 = clamp (cursor_row m + n) 0 (int (length (rows m)) - 1) \<and>
         YOffset (viewport m1) =
           (case spec_MoveDown_rule n (cursor_row m1) (start m1) (end' m1) (int (length (rows m)))
                   (Height (viewport m)) (YOffset (viewport m)) of
              None \<Rightarrow> YOffset (viewport m)
            | Some v \<Rightarrow> v))"
proof -
  let ?g = "New [WithColumns [''c''], WithRows (replicate 40 [''x''])]"
  have "case ?g of Inl e \<Rightarrow> False
        | Inr m0 \<Rightarrow> (case MoveDown 39 m0 of Inl e \<Rightarrow> False
          | Inr ma \<Rightarrow> (case MoveUp 5 ma of Inl e \<Rightarrow> False
            | Inr mb \<Rightarrow> (case MoveUp 10 mb of Inl e \<Rightarrow> False
              | Inr m \<Rightarrow> (case MoveDown 1 m of Inl e \<Rightarrow> False
                | Inr m1 \<Rightarrow> length (rows m) = 40 \<and> Height (viewport m) = 30 \<and>
                    YOffset (viewport m) = 16 \<and> cursor_row m1 = 25 \<and> start m1 = 0 \<and>
                    end' m1 = 40 \<and> YOffset (viewport m1) = 10))))"
    by code_simp
  then obtain m0 ma mb m m1 where g: "?g = Inr m0" and a: "MoveDown 39 m0 = Inr ma"
    and b: "MoveUp 5 ma = Inr mb" and m: "MoveUp 10 mb = Inr m" and d: "MoveDown 1 m = Inr m1"
    and v: "length (rows m) = 40" "Height (viewport m) = 30" "YOffset (viewport m) = 16"
      "cursor_row m1 = 25" "start m1 = 0" "end' m1 = 40" "YOffset (viewport m1) = 10"
    by (auto split: sum.splits)
  have r: "reachable m"
    by (rule reach_MoveUp [OF reach_MoveUp [OF reach_MoveDown [OF reach_New [OF g] a] b] m])
  have "spec_MoveDown_rule 1 25 0 40 40 30 16 = Some 15"
    by (simp add: spec_MoveDown_rule_def clamp_def)
  with v have "YOffset (viewport m1) \<noteq>
           (case spec_MoveDown_rule 1 (cursor_row m1) (start m1) (end' m1) (int (length (rows m)))
                   (Height (viewport m)) (YOffset (viewport m)) of
              None \<Rightarrow> YOffset (viewport m)
            | Some v \<Rightarrow> v)"
    by simp
  with r d show ?thesis by force
qed

lemma MoveDown_offset_Inr:
  assumes r: "reachable m" and n: "1 \<le> n" and nov: "cursor_row m + n < 2 ^ 63"
    and d: "MoveDown n m = Inr m2"
  shows "cursor_row m2 = clamp (cursor_row m + n) 0 (int (length (rows m)) - 1)
       \<and> start m2 = (if cursor_row m2 \<ge> 0
                     then clamp (cursor_row m2 - Height (viewport m)) 0 (cursor_row m2) else 0)
       \<and> end' m2 = clamp (cursor_row m2 + Height (viewport m)) (cursor_row m2)
                     (int (length (rows m)))
       \<and> YOffset (viewport m2) =
           (case MoveDown_rule n (cursor_row m2) (start m2) (end' m2) (int (length (rows m)))
                   (Height (viewport m)) (YOffset (viewport m)) of
              None \<Rightarrow> YOffset (viewport m)
            | Some v \<Rightarrow>
                clamp v 0 (max 0 (max 1 (end' m2 - start m2) - Height (viewport m))))"
proof -
  let ?N = "int (length (rows m))" and ?h = "Height (viewport m)" and ?y = "YOffset (viewport m)"
  let ?c = "clamp (cursor_row m + n) 0 (?N - 1)"
  from reachable_inv [OF r] have i: "cursor_inv m" and w: "window_inv m" by simp_all
  from i have y: "0 \<le> ?y" "?y \<le> ?h" and h: "?h = min 30 ?N"
    and c: "if rows m = [] then cursor_row m = 0 \<or> cursor_row m = - 1
      else 0 \<le> cursor_row m \<and> cursor_row m < ?N"
    unfolding cursor_inv_def by blast+
  from c have cb: "- 1 \<le> cursor_row m" by (auto split: if_splits)
  with n nov have wc: "wrap64 (cursor_row m + n) = cursor_row m + n"
    by (intro wrap64_id) simp_all
  from cb n nov y h have wy: "wrap64 (?y - n) = ?y - n"
    by (intro wrap64_id) simp_all
  from d wc obtain m1 where
    u1: "UpdateViewport (m\<lparr>cursor_row := ?c\<rparr>) = Inr m1"
    and m2: "m2 = (let vp = viewport m1
               in if end' m1 = int (length (rows m1)) \<and> YOffset vp > 0 then
                    m1\<lparr>viewport := SetYOffset (clamp (wrap64 (YOffset vp - n)) 1 (Height vp)) vp\<rparr>
                  else if cursor_row m1 > quo (end' m1 - start m1) 2 \<and> YOffset vp > 0 then
                    m1\<lparr>viewport := SetYOffset (clamp (wrap64 (YOffset vp - n)) 1 (cursor_row m1)) vp\<rparr>
                  else if YOffset vp > 1 then m1
                  else if cursor_row m1 > YOffset vp + Height vp - 1 then
                    m1\<lparr>viewport := SetYOffset (clamp (YOffset vp + 1) 0 1) vp\<rparr>
                  else m1)"
    by (auto elim: MoveDown_Inr)
  note f = UpdateViewport_Inr [OF u1]
  from f(2,4,6) have f1: "rows m1 = rows m" "cursor_row m1 = ?c" "Height (viewport m1) = ?h"
    by simp_all
  from f(7,8) have s1: "start m1 = (if ?c \<ge> 0 then clamp (?c - ?h) 0 ?c else 0)"
    and e1: "end' m1 = clamp (?c + ?h) ?c ?N"
    by simp_all
  from MoveDown_keeps_offset_visible [OF i w n refl]
  have "\<not> ?y > max 1 (end' m1 - start m1) - 1" unfolding s1 e1 by simp
  moreover from f(10) have "YOffset (viewport m1) =
           (if ?y > max 1 (end' m1 - start m1) - 1
            then max 0 (max 1 (end' m1 - start m1) - ?h) else ?y)"
    by simp
  ultimately have y1: "YOffset (viewport m1) = ?y" by simp
  from f(9) have l1: "int (length (lines (viewport m1))) = max 1 (end' m1 - start m1)" .
  have sy: "YOffset (SetYOffset v (viewport m1))
            = clamp v 0 (max 0 (max 1 (end' m1 - start m1) - ?h))" for v
    by (simp add: YOffset_SetYOffset l1 f1)
  from m2 have g: "cursor_row m2 = cursor_row m1" "start m2 = start m1" "end' m2 = end' m1"
    by (auto simp: Let_def split: if_splits)
  from m2 have "YOffset (viewport m2) =
           (case MoveDown_rule n (cursor_row m1) (start m1) (end' m1) ?N ?h ?y of
              None \<Rightarrow> ?y
            | Some v \<Rightarrow> clamp v 0 (max 0 (max 1 (end' m1 - start m1) - ?h)))"
    unfolding MoveDown_rule_def Let_def y1 f1 wy
    by (auto simp: sy y1)
  then have o: "YOffset (viewport m2) =
           (case MoveDown_rule n (cursor_row m2) (start m2) (end' m2) ?N ?h ?y of
              None \<Rightarrow> ?y
            | Some v \<Rightarrow> clamp v 0 (max 0 (max 1 (end' m2 - start m2) - ?h)))"
    unfolding g .
  have c2: "cursor_row m2 = ?c" unfolding g f1 ..
  have s2: "start m2 = (if cursor_row m2 \<ge> 0
                     then clamp (cursor_row m2 - ?h) 0 (cursor_row m2) else 0)"
    unfolding c2 unfolding g s1 ..
  have e2: "end' m2 = clamp (cursor_row m2 + ?h) (cursor_row m2) ?N"
    unfolding c2 unfolding g e1 ..
  from c2 s2 e2 o show ?thesis by blast
qed

text \<open>
  The table of the source and the table of the specification agree while the window starts
  at the first row. Further down they part: rule 2 of the source fires when the cursor row
  exceeds half the length of the window, wherever the window starts. In a table of 70 rows,
  after \<open>MoveDown 50\<close> and \<open>MoveUp 15\<close> the offset is 16; \<open>MoveDown 4\<close> puts the cursor on
  row 39, the middle row of the window of rows 9 to 68, which it has not passed, and the
  offset becomes 12 by rule 2 of the source, where the specification's table leaves it.
\<close>

lemma MoveDown_rule_window_at_top:
  "MoveDown_rule n c 0 en rowCount visibleHeight offset
   = spec_MoveDown_rule n c 0 en rowCount visibleHeight offset"
  by (simp add: MoveDown_rule_def spec_MoveDown_rule_def)

lemma MoveDown_rule_not_midpoint:
  "\<exists>m m2. reachable m \<and> MoveDown 4 m = Inr m2 \<and>
     cursor_row m2 = 39 \<and> start m2 = 9 \<and> end' m2 = 69 \<and>
     YOffset (viewport m) = 16 \<and> YOffset (viewport m2) = 12 \<and>
     MoveDown_rule 4 39 9 69 70 30 16 = Some 12 \<and>
     spec_MoveDown_rule 4 39 9 69 70 30 16 = None"
proof -
  let ?g = "New [WithColumns [''c''], WithRows (replicate 70 [''x''])]"
  have "case ?g of Inl e \<Rightarrow> False
        | Inr m0 \<Rightarrow> (case MoveDown 50 m0 of Inl e \<Rightarrow> False
          | Inr ma \<Rightarrow> (case MoveUp 15 ma of Inl e \<Rightarrow> False
            | Inr m \<Rightarrow> (case MoveDown 4 m of Inl e \<Rightarrow> False
              | Inr m2 \<Rightarrow> cursor_row m2 = 39 \<and> start m2 = 9 \<and> end' m2 = 69 \<and>
                  YOffset (viewport m) = 16 \<and> YOffset (viewport m2) = 12)))"
    by code_simp
  then obtain m0 ma m m2 where g: "?g = Inr m0" and a: "MoveDown 50 m0 = Inr ma"
    and m: "MoveUp 15 ma = Inr m" and d: "MoveDown 4 m = Inr m2"
    and v: "cursor_row m2 = 39" "start m2 = 9" "end' m2 = 69"
      "YOffset (viewport m) = 16" "YOffset (viewport m2) = 12"
    by (auto split: sum.splits)
  have r: "reachable m"
    by (rule reach_MoveUp [OF reach_MoveDown [OF reach_New [OF g] a] m])
  have "MoveDown_rule 4 39 9 69 70 30 16 = Some 12"
    "spec_MoveDown_rule 4 39 9 69 70 30 16 = None"
    by (simp_all add: MoveDown_rule_def spec_MoveDown_rule_def clamp_def quo_def)
  with r d v show ?thesis by (intro exI [of _ m] exI [of _ m2]) simp
qed

text \<open>
  C5, amended. From every reachable state, for \<open>n \<ge> 1\<close> with \<open>cursor_row + n\<close> inside
  the 64-bit range, \<open>MoveDown n\<close> returns and the cursor row is
  \<open>clamp (cursor_row + n) 0 (rowCount - 1)\<close>. The window is recomputed for the new cursor
  row and re-rendered before the offset is updated: the content buffer holds the rendered
  rows \<open>start\<close> to \<open>end - 1\<close> of the new window, the cursor row highlighted
  (\<open>renderRow_Inr\<close>), or one empty line when the window is empty. The offset then follows
  the first matching rule of the table, read against the new window, with rule 2 as the
  source has it (\<open>cursor_row > (end - start) / 2\<close>, half the length of the window): it is
  unchanged when rule 3 or no rule applies, and otherwise it is the value of the rule
  limited to between 0 and \<open>max 0 (lines - Height)\<close>, where \<open>lines = max 1 (end - start)\<close>
  is the number of lines of the new content buffer.
\<close>

theorem MoveDown_scroll_rules:
  assumes r: "reachable m" and n: "1 \<le> n" and nov: "cursor_row m + n < 2 ^ 63"
  shows "\<exists>m2. MoveDown n m = Inr m2
       \<and> cursor_row m2 = clamp (cursor_row m + n) 0 (int (length (rows m)) - 1)
       \<and> start m2 = (if cursor_row m2 \<ge> 0
                     then clamp (cursor_row m2 - Height (viewport m)) 0 (cursor_row m2) else 0)
       \<and> end' m2 = clamp (cursor_row m2 + Height (viewport m)) (cursor_row m2)
                     (int (length (rows m)))
       \<and> (\<exists>rs. collect (renderRow m2) [start m2 .. end' m2 - 1] = Inr rs \<and>
                 lines (viewport m2) = JoinVertical rs)
       \<and> YOffset (viewport m2) =
           (case MoveDown_rule n (cursor_row m2) (start m2) (end' m2) (int (length (rows m)))
                   (Height (viewport m)) (YOffset (viewport m)) of
              None \<Rightarrow> YOffset (viewport m)
            | Some v \<Rightarrow>
                clamp v 0 (max 0 (max 1 (end' m2 - start m2) - Height (viewport m))))"
proof -
  from MoveDown_reachable_total [OF r] obtain m2 where d: "MoveDown n m = Inr m2" ..
  from MoveDown_offset_Inr [OF r n nov d] MoveDown_content [OF d] d show ?thesis by blast
qed

theorem MoveDown_scroll_rules_witness:
  "\<exists>m m2 rs. reachable m \<and> (1::int) \<le> 4 \<and> cursor_row m + 4 < 2 ^ 63 \<and> MoveDown 4 m = Inr m2 \<and>
     cursor_row m = 35 \<and> YOffset (viewport m) = 16 \<and>
     cursor_row m2 = 39 \<and> start m2 = 9 \<and> end' m2 = 69 \<and>
     collect (renderRow m2) [9 .. 68] = Inr rs \<and> lines (viewport m2) = JoinVertical rs \<and>
     YOffset (viewport m2) = 12"
proof -
  let ?g = "New [WithColumns [''c''], WithRows (replicate 70 [''x''])]"
  have "case ?g of Inl e \<Rightarrow> False
        | Inr m0 \<Rightarrow> (case MoveDown 50 m0 of Inl e \<Rightarrow> False
          | Inr ma \<Rightarrow> (case MoveUp 15 ma of Inl e \<Rightarrow> False
              | Inr m \<Rightarrow> length (rows m) = 70 \<and> Height (viewport m) = 30 \<and>
                    YOffset (viewport m) = 16 \<and> cursor_row m = 35))"
    by code_simp
  then obtain m0 ma m where g: "?g = Inr m0" and a: "MoveDown 50 m0 = Inr ma"
    and m: "MoveUp 15 ma = Inr m"
    and v: "length (rows m) = 70" "Height (viewport m) = 30" "YOffset (viewport m) = 16"
      "cursor_row m = 35"
    by (auto split: sum.splits)
  have r: "reachable m"
    by (rule reach_MoveUp [OF reach_MoveDown [OF reach_New [OF g] a] m])
  from MoveDown_scroll_rules [OF r, of 4] v obtain m2 rs where "MoveDown 4 m = Inr m2"
    and "cursor_row m2 = 39 \<and> start m2 = 9 \<and> end' m2 = 69 \<and> YOffset (viewport m2) = 12"
    and "collect (renderRow m2) [9 .. 68] = Inr rs \<and> lines (viewport m2) = JoinVertical rs"
    by (auto simp: clamp_def MoveDown_rule_def quo_def)
  with r v show ?thesis by (intro exI [of _ m] exI [of _ m2] exI [of _ rs]) simp
qed

section \<open>Column navigation on a grid without columns\<close>

text \<open>
  C8 (navigation is total on every rectangular grid, zero columns allowed). On a grid with
  no columns and one (empty) row, construction succeeds, and \<open>MoveRight 1\<close> sets
  \<open>cursor_col\<close> to \<open>clamp 1 0 (-1) = -1\<close>; the cell loop of \<open>renderRow\<close> then reads
  \<open>m.rows[0][-1]\<close> and the program panics. (\<open>MoveUp\<close> and \<open>MoveDown\<close> return in every
  reachable state, \<open>MoveLeft\<close> and \<open>MoveRight\<close> in every reachable state with a column or
  without rows: the lemmas \<open>MoveUp_reachable_total\<close> to \<open>MoveLeft_reachable_total\<close>.)
\<close>

theorem MoveRight_without_columns_panics:
  "\<exists>m. New [WithColumns [], WithRows [[]]] = Inr m \<and> MoveRight 1 m = Inl IndexOutOfRange"
proof -
  have "case New [WithColumns [], WithRows [[]]] of
          Inl e \<Rightarrow> False
        | Inr m \<Rightarrow> MoveRight 1 m = Inl IndexOutOfRange"
    by code_simp
  then show ?thesis by (rule sum_case_ex)
qed

section \<open>Frame conditions\<close>

text \<open>
  C9 (what navigation leaves alone). In every reachable state and for every \<open>n\<close>:
  \<open>MoveLeft n\<close> and \<open>MoveRight n\<close>, when they return, leave \<open>cursor_row\<close> and the
  viewport's scroll offset unchanged; \<open>MoveUp n\<close> and \<open>MoveDown n\<close> leave \<open>cursor_col\<close>
  unchanged; and none of the four changes the columns, the rows or the width table.
\<close>

theorem navigation_frame:
  assumes "reachable m"
  shows "(MoveLeft n m = Inr m1 \<longrightarrow>
            cursor_row m1 = cursor_row m \<and> YOffset (viewport m1) = YOffset (viewport m) \<and>
            cols m1 = cols m \<and> rows m1 = rows m \<and> paddings m1 = paddings m)
       \<and> (MoveRight n m = Inr m2 \<longrightarrow>
            cursor_row m2 = cursor_row m \<and> YOffset (viewport m2) = YOffset (viewport m) \<and>
            cols m2 = cols m \<and> rows m2 = rows m \<and> paddings m2 = paddings m)
       \<and> (MoveUp n m = Inr m3 \<longrightarrow>
            cursor_col m3 = cursor_col m \<and>
            cols m3 = cols m \<and> rows m3 = rows m \<and> paddings m3 = paddings m)
       \<and> (MoveDown n m = Inr m4 \<longrightarrow>
            cursor_col m4 = cursor_col m \<and>
            cols m4 = cols m \<and> rows m4 = rows m \<and> paddings m4 = paddings m)"
proof -
  from reachable_inv [OF assms] have w: "window_inv m" by simp
  have l: "YOffset (viewport m1) = YOffset (viewport m)" if "MoveLeft n m = Inr m1"
    using UpdateViewport_same_window [OF w that [unfolded MoveLeft_def]] .
  have r: "YOffset (viewport m2) = YOffset (viewport m)" if "MoveRight n m = Inr m2"
    using UpdateViewport_same_window [OF w that [unfolded MoveRight_def]] .
  show ?thesis
    using l r MoveLeft_fields(1-4) [of n m m1] MoveRight_fields(1-4) [of n m m2]
      MoveUp_fields(1-4) [of n m m3] MoveDown_fields(1-4) [of n m m4]
    by simp
qed

theorem navigation_frame_witness:
  "\<exists>m m1 m2 m3 m4.
     reachable m \<and> cursor_row m = 1 \<and> cursor_col m = 0 \<and>
     MoveLeft 1 m = Inr m1 \<and> MoveRight 1 m = Inr m2 \<and> MoveUp 1 m = Inr m3 \<and>
     MoveDown 1 m = Inr m4 \<and>
     cursor_row m1 = 1 \<and> YOffset (viewport m1) = YOffset (viewport m) \<and>
     cursor_row m2 = 1 \<and> YOffset (viewport m2) = YOffset (viewport m) \<and>
     cursor_col m3 = 0 \<and> cursor_col m4 = 0 \<and>
     rows m1 = rows m \<and> rows m2 = rows m \<and> rows m3 = rows m \<and> rows m4 = rows m"
proof -
  let ?g = "New [WithColumns [''ID'', ''Name''],
                 WithRows [[''1'', ''Ann''], [''2'', ''Bob''], [''3'', ''Cory'']]]"
  have "case ?g of Inl e \<Rightarrow> False
        | Inr m0 \<Rightarrow> (case MoveDown 1 m0 of Inl e \<Rightarrow> False
           | Inr m \<Rightarrow> cursor_row m = 1 \<and> cursor_col m = 0 \<and>
               (case MoveLeft 1 m of Inl e \<Rightarrow> False | Inr m1 \<Rightarrow> True) \<and>
               (case MoveRight 1 m of Inl e \<Rightarrow> False | Inr m2 \<Rightarrow> True) \<and>
               (case MoveUp 1 m of Inl e \<Rightarrow> False | Inr m3 \<Rightarrow> True) \<and>
               (case MoveDown 1 m of Inl e \<Rightarrow> False | Inr m4 \<Rightarrow> True))"
    by code_simp
  then obtain m0 m m1 m2 m3 m4 where g: "?g = Inr m0" and m: "MoveDown 1 m0 = Inr m"
    and c: "cursor_row m = 1" "cursor_col m = 0"
    and ops: "MoveLeft 1 m = Inr m1" "MoveRight 1 m = Inr m2" "MoveUp 1 m = Inr m3"
      "MoveDown 1 m = Inr m4"
    by (auto split: sum.splits)
  have r: "reachable m" by (rule reach_MoveDown [OF reach_New [OF g] m])
  from navigation_frame [OF r, of 1 m1 m2 m3 m4] ops c r show ?thesis by auto
qed

section \<open>The grid without rows\<close>

text \<open>
  C10 (the empty-selection value -1). Construction always returns \<open>cursor_row = 0\<close>, also
  for a grid without rows. In any state without rows, \<open>MoveUp n\<close> and \<open>MoveDown n\<close>
  return, for every \<open>n\<close>, a state without rows whose \<open>cursor_row\<close> is -1; so after the
  first vertical move the cursor row is -1 and stays there.
\<close>

theorem empty_grid_sentinel:
  assumes "rows m = []"
  shows "(\<exists>m0. New [WithColumns cs, WithRows []] = Inr m0 \<and> cursor_row m0 = 0 \<and> rows m0 = [])
       \<and> (New [WithColumns cs, WithRows rs] = Inr m' \<longrightarrow> cursor_row m' = 0)
       \<and> (\<exists>m1. MoveUp n m = Inr m1 \<and> cursor_row m1 = - 1 \<and> rows m1 = [])
       \<and> (\<exists>m1. MoveDown n m = Inr m1 \<and> cursor_row m1 = - 1 \<and> rows m1 = [])"
proof (intro conjI)
  from New_total [of cs "[]"] obtain m0 where "New [WithColumns cs, WithRows []] = Inr m0"
    by auto
  with New_Inr(2,3) [OF this]
  show "\<exists>m0. New [WithColumns cs, WithRows []] = Inr m0 \<and> cursor_row m0 = 0 \<and> rows m0 = []"
    by simp
next
  show "New [WithColumns cs, WithRows rs] = Inr m' \<longrightarrow> cursor_row m' = 0"
    using New_Inr(3) by blast
next
  from MoveUp_total [OF assms] obtain m1 where m1: "MoveUp n m = Inr m1" by blast
  from MoveUp_fields(2,5) [OF m1] assms have "cursor_row m1 = - 1" "rows m1 = []"
    by (simp_all add: clamp_def)
  with m1 show "\<exists>m1. MoveUp n m = Inr m1 \<and> cursor_row m1 = - 1 \<and> rows m1 = []" by simp
next
  from MoveDown_total [OF assms] obtain m1 where m1: "MoveDown n m = Inr m1" by blast
  from MoveDown_fields(2,5) [OF m1] assms have "cursor_row m1 = - 1" "rows m1 = []"
    by (simp_all add: clamp_def)
  with m1 show "\<exists>m1. MoveDown n m = Inr m1 \<and> cursor_row m1 = - 1 \<and> rows m1 = []" by simp
qed

theorem empty_grid_sentinel_witness:
  "\<exists>m m'. New [WithColumns [''ID'', ''Name''], WithRows []] = Inr m \<and> rows m = [] \<and>
     cursor_row m = 0 \<and>
     New [WithColumns [''ID'', ''Name''], WithRows [[''1'', ''Ann'']]] = Inr m' \<and>
     cursor_row m' = 0 \<and>
     (\<exists>m1. MoveUp 1 m = Inr m1 \<and> cursor_row m1 = - 1 \<and> rows m1 = []) \<and>
     (\<exists>m1. MoveDown 1 m = Inr m1 \<and> cursor_row m1 = - 1 \<and> rows m1 = [])"
proof -
  have "case New [WithColumns [''ID'', ''Name''], WithRows []] of Inl e \<Rightarrow> False
        | Inr m \<Rightarrow> rows m = [] \<and>
           (case New [WithColumns [''ID'', ''Name''], WithRows [[''1'', ''Ann'']]] of
              Inl e \<Rightarrow> False | Inr m' \<Rightarrow> True)"
    by code_simp
  then obtain m m' where g: "New [WithColumns [''ID'', ''Name''], WithRows []] = Inr m"
    and e: "rows m = []"
    and g': "New [WithColumns [''ID'', ''Name''], WithRows [[''1'', ''Ann'']]] = Inr m'"
    by (auto split: sum.splits)
  from empty_grid_sentinel [OF e, of "[''ID'', ''Name'']" "[[''1'', ''Ann'']]" m' 1] g g' e
  show ?thesis by (intro exI [of _ m] exI [of _ m']) auto
qed

end
